theory Spec2Isabelle
  imports Complex_Main "HOL-Library.Sublist"
begin

section \<open>The chat client of chat.py: data model\<close>

text \<open>
  A message is the dict \<^verbatim>\<open>{'role': ..., 'content': ...}\<close> of the source; both values
  are Python strings. A character is one code point below 256.
\<close>

record message =
  role :: string
  content :: string

text \<open>
  What \<^verbatim>\<open>openai.ChatCompletion.create\<close> returns, as far as the source reads it:
  \<^verbatim>\<open>response['choices'][i]['message']\<close> and \<^verbatim>\<open>response['usage']['total_tokens']\<close>.
  \<open>seconds\<close> is the wall-clock time the call took (\<^verbatim>\<open>end_time - start_time\<close>, a float
  in the source, a real number here).
\<close>

record response =
  choices :: "message list"
  total_tokens :: int
  seconds :: real

text \<open>The exceptions the modelled code can raise by itself.\<close>

datatype exn = IndexError | EOFError | FileNotFoundError

text \<open>
  How a function of the source ends: it returns a value, it calls \<^verbatim>\<open>exit(n)\<close>, or an
  exception leaves it.
\<close>

datatype 'a result = Returned 'a | Exited int | Raised exn

text \<open>
  The remote service, as seen by \<^verbatim>\<open>get_response\<close>: given the number of calls made
  before this one and the messages transmitted, it answers with a response or raises an
  exception, of which the source only reads \<^verbatim>\<open>str(error)\<close>.
\<close>

type_synonym client = "nat \<Rightarrow> message list \<Rightarrow> string + response"

text \<open>
  Python lists are mutable objects reached through references, so the state holds a store
  of list objects: \<open>heap\<close> maps an address to the list stored there and \<open>next_free\<close> is
  the first address not yet allocated. \<open>ALL_MESSAGES\<close> is the reference held by
  \<^verbatim>\<open>app_state.ALL_MESSAGES\<close>. \<open>files\<close> is the file system, \<open>stdin\<close> the lines that
  \<^verbatim>\<open>input()\<close> will read, \<open>sleeps\<close> the arguments of the calls of \<^verbatim>\<open>time.sleep\<close> so
  far, and \<open>calls\<close> the message sequences passed to \<^verbatim>\<open>get_response\<close> so far. The log
  files written by the logging functions are left out (their writes are taken to succeed).
\<close>

record world =
  heap :: "nat \<Rightarrow> message list"
  next_free :: nat
  ALL_MESSAGES :: nat
  files :: "string \<rightharpoonup> string"
  stdin :: "string list"
  sleeps :: "nat list"
  calls :: "message list list"

definition MODEL_MAX_TOKENS :: int where
  "MODEL_MAX_TOKENS = 7500"

definition max_retry :: nat where
  "max_retry = 7"

section \<open>Strings\<close>

text \<open>\<^verbatim>\<open>sub in s\<close> on Python strings: \<open>sub\<close> occurs in \<open>s\<close> as a contiguous run.\<close>

fun contains :: "string \<Rightarrow> string \<Rightarrow> bool" where
  "contains sub [] = (sub = [])"
| "contains sub (c # cs) = (prefix sub (c # cs) \<or> contains sub cs)"

text \<open>
  \<^verbatim>\<open>s.strip(chars)\<close>: the characters of \<open>chars\<close> are a set; every leading and every
  trailing character of \<open>s\<close> that belongs to it is removed.
\<close>

definition strip_chars :: "string \<Rightarrow> string \<Rightarrow> string" where
  "strip_chars chars s =
     rev (dropWhile (\<lambda>c. c \<in> set chars) (rev (dropWhile (\<lambda>c. c \<in> set chars) s)))"

text \<open>
  The characters below 256 for which \<^verbatim>\<open>str.isspace\<close> holds: tab, line feed, vertical
  tab, form feed, carriage return, the four separators 0x1C to 0x1F, space, next line and
  no-break space. \<^verbatim>\<open>s.strip()\<close> removes them at both ends.
\<close>

definition whitespace :: string where
  "whitespace = [CHR 0x09, CHR 0x0A, CHR 0x0B, CHR 0x0C, CHR 0x0D, CHR 0x1C, CHR 0x1D,
                 CHR 0x1E, CHR 0x1F, CHR 0x20, CHR 0x85, CHR 0xA0]"

definition strip :: "string \<Rightarrow> string" where
  "strip s = strip_chars whitespace s"

text \<open>\<^verbatim>\<open>sep.join(xs)\<close>.\<close>

fun join :: "string \<Rightarrow> string list \<Rightarrow> string" where
  "join sep [] = []"
| "join sep [x] = x"
| "join sep (x # y # ys) = x @ sep @ join sep (y # ys)"

text \<open>
  \<^verbatim>\<open>s.replace(old, new)\<close> for a non-empty \<open>old\<close> (the source only replaces the
  constant \<^verbatim>\<open><<CODE>>\<close>): the occurrences of \<open>old\<close> are found from left to right,
  without overlap.
\<close>

fun replace :: "string \<Rightarrow> string \<Rightarrow> string \<Rightarrow> string" where
  "replace old new [] = []"
| "replace old new (c # cs) =
     (if old \<noteq> [] \<and> prefix old (c # cs)
      then new @ replace old new (drop (length old - 1) cs)
      else c # replace old new cs)"

section \<open>List objects\<close>

text \<open>\<^verbatim>\<open>list()\<close>: a new, empty list object; its reference is returned.\<close>

definition new_list :: "world \<Rightarrow> nat \<times> world" where
  "new_list w = (next_free w, w\<lparr>heap := (heap w)(next_free w := []), next_free := Suc (next_free w)\<rparr>)"

text \<open>\<^verbatim>\<open>a.append(m)\<close>, \<^verbatim>\<open>a += xs\<close> and \<^verbatim>\<open>a.pop(0)\<close> change the object at \<open>a\<close>.\<close>

definition list_append :: "nat \<Rightarrow> message \<Rightarrow> world \<Rightarrow> world" where
  "list_append a m w = w\<lparr>heap := (heap w)(a := heap w a @ [m])\<rparr>"

definition list_extend :: "nat \<Rightarrow> message list \<Rightarrow> world \<Rightarrow> world" where
  "list_extend a xs w = w\<lparr>heap := (heap w)(a := heap w a @ xs)\<rparr>"

definition list_pop0 :: "nat \<Rightarrow> world \<Rightarrow> message result \<times> world" where
  "list_pop0 a w =
     (case heap w a of
        [] \<Rightarrow> (Raised IndexError, w)
      | m # ms \<Rightarrow> (Returned m, w\<lparr>heap := (heap w)(a := ms)\<rparr>))"

section \<open>File operations\<close>

text \<open>
  \<open>files\<close> holds each file's stored text. Both functions open the file in text mode with
  the default \<^verbatim>\<open>newline=None\<close>, so that reading translates line endings: a carriage
  return followed by a line feed, and a carriage return alone, are read as one line feed.
\<close>

fun universal_newlines :: "string \<Rightarrow> string" where
  "universal_newlines [] = []"
| "universal_newlines [c] = [if c = CHR 0x0D then CHR 0x0A else c]"
| "universal_newlines (c # d # ds) =
     (if c = CHR 0x0D \<and> d = CHR 0x0A then CHR 0x0A # universal_newlines ds
      else if c = CHR 0x0D then CHR 0x0A # universal_newlines (d # ds)
      else c # universal_newlines (d # ds))"

text \<open>
  \<^verbatim>\<open>save_file\<close> replaces the stored text of the file (the write is taken to succeed, and
  the line separator of the platform to be the line feed, so that writing translates
  nothing); \<^verbatim>\<open>open_file\<close> reads the file and raises when there is no such file.
\<close>

definition save_file :: "string \<Rightarrow> string \<Rightarrow> world \<Rightarrow> world" where
  "save_file filepath text w = w\<lparr>files := (files w)(filepath \<mapsto> text)\<rparr>"

definition open_file :: "string \<Rightarrow> world \<Rightarrow> string result" where
  "open_file filepath w =
     (case files w filepath of
        None \<Rightarrow> Raised FileNotFoundError
      | Some stored \<Rightarrow> Returned (universal_newlines stored))"

section \<open>API functions\<close>

text \<open>
  \<^verbatim>\<open>handle_error(error, conversation)\<close>: \<open>conversation\<close> is a reference, and
  \<^verbatim>\<open>conversation.pop(0)\<close> changes the list object it points to; on an empty list
  \<^verbatim>\<open>pop\<close> raises IndexError.
\<close>

definition handle_error :: "string \<Rightarrow> nat \<Rightarrow> world \<Rightarrow> (bool \<times> nat) result \<times> world" where
  "handle_error error conversation w =
     (if contains ''maximum context length'' error then
        (case list_pop0 conversation w of
           (Returned m, w1) \<Rightarrow> (Returned (True, conversation), w1)
         | (Exited n, w1) \<Rightarrow> (Exited n, w1)
         | (Raised e, w1) \<Rightarrow> (Raised e, w1))
      else (Returned (False, conversation), w))"

text \<open>
  The body of the \<^verbatim>\<open>try\<close> block: one call of \<^verbatim>\<open>get_response\<close> and the reading of
  the response. \<^verbatim>\<open>response['choices'][0]\<close> raises IndexError (whose text is
  \<^verbatim>\<open>list index out of range\<close>) when there is no choice. \<open>Inl\<close> carries the text
  (\<^verbatim>\<open>str\<close>) of the exception caught by the \<^verbatim>\<open>except\<close> clause.
\<close>

definition attempt :: "client \<Rightarrow> nat \<Rightarrow> message list \<Rightarrow> string + (string \<times> int \<times> real)" where
  "attempt c n conversation =
     (case c n conversation of
        Inl err \<Rightarrow> Inl err
      | Inr response \<Rightarrow>
          (case choices response of
             [] \<Rightarrow> Inl ''list index out of range''
           | m # _ \<Rightarrow> Inr (content m, total_tokens response, seconds response)))"

text \<open>
  The loop \<^verbatim>\<open>for retry in range(max_retry)\<close>, by recursion on the indices still to
  come; when they are used up, control reaches \<^verbatim>\<open>exit(1)\<close>. An exception raised inside
  the \<^verbatim>\<open>except\<close> clause is not caught by it and leaves the function.
\<close>

fun retry_loop :: "client \<Rightarrow> nat list \<Rightarrow> nat \<Rightarrow> world \<Rightarrow> (string \<times> int \<times> real) result \<times> world" where
  "retry_loop c [] conversation w = (Exited 1, w)"
| "retry_loop c (retry # rest) conversation w =
     (let sent = heap w conversation;
          w1 = w\<lparr>calls := calls w @ [sent]\<rparr>
      in case attempt c (length (calls w)) sent of
           Inr res \<Rightarrow> (Returned res, w1)
         | Inl err \<Rightarrow>
             (case handle_error err conversation w1 of
                (Raised e, w2) \<Rightarrow> (Raised e, w2)
              | (Exited n, w2) \<Rightarrow> (Exited n, w2)
              | (Returned (should_continue, conversation'), w2) \<Rightarrow>
                  if \<not> should_continue
                  then retry_loop c rest conversation' (w2\<lparr>sleeps := sleeps w2 @ [2 ^ retry * 5]\<rparr>)
                  else retry_loop c rest conversation' w2))"

definition do_chatbot_conversation_exchange ::
  "client \<Rightarrow> nat \<Rightarrow> world \<Rightarrow> (string \<times> int \<times> real) result \<times> world" where
  "do_chatbot_conversation_exchange c conversation w = retry_loop c [0..<max_retry] conversation w"

section \<open>Main loop\<close>

text \<open>\<^verbatim>\<open>input()\<close> takes the next line of the input; at its end it raises EOFError.\<close>

fun read_lines :: "string list \<Rightarrow> string list \<Rightarrow> string list result \<times> string list" where
  "read_lines lines [] = (Raised EOFError, [])"
| "read_lines lines (line # rest) =
     (if line = ''END'' then (Returned lines, rest) else read_lines (lines @ [line]) rest)"

definition multi_line_input :: "world \<Rightarrow> string result \<times> world" where
  "multi_line_input w =
     (case read_lines [] (stdin w) of
        (Returned lines, rest) \<Rightarrow> (Returned (join [CHR 0x0A] lines), w\<lparr>stdin := rest\<rparr>)
      | (Exited n, rest) \<Rightarrow> (Exited n, w\<lparr>stdin := rest\<rparr>)
      | (Raised e, rest) \<Rightarrow> (Raised e, w\<lparr>stdin := rest\<rparr>))"

text \<open>\<^verbatim>\<open>get_user_input\<close> returns \<open>None\<close> after a scratchpad entry, the line read otherwise.\<close>

definition get_user_input :: "world \<Rightarrow> string option result \<times> world" where
  "get_user_input w =
     (case stdin w of
        [] \<Rightarrow> (Raised EOFError, w)
      | text # rest \<Rightarrow>
          (let w1 = w\<lparr>stdin := rest\<rparr>
           in if ''END'' = text then (Exited 0, w1)
              else if ''SCRATCHPAD'' = text \<or> ''M'' = text then
                (case multi_line_input w1 of
                   (Returned text', w2) \<Rightarrow>
                     (Returned None, save_file ''scratchpad.txt'' (strip (strip_chars ''END'' text')) w2)
                 | (Exited n, w2) \<Rightarrow> (Exited n, w2)
                 | (Raised e, w2) \<Rightarrow> (Raised e, w2))
              else (Returned (Some text), w1)))"

text \<open>
  Lines 227 to 229 of \<^verbatim>\<open>main\<close>: a new list object, extended by the messages of the
  history, then by the system message. The reference of the new object is returned.
\<close>

definition build_request :: "string \<Rightarrow> world \<Rightarrow> nat \<times> world" where
  "build_request system_message w =
     (let (conversation, w1) = new_list w;
          w2 = list_extend conversation (heap w1 (ALL_MESSAGES w1)) w1;
          w3 = list_append conversation \<lparr>role = ''system'', content = system_message\<rparr> w2
      in (conversation, w3))"

text \<open>Lines 234 and 235 of \<^verbatim>\<open>main\<close>: the trim of the history after an exchange.\<close>

definition trim_if_over_budget :: "int \<Rightarrow> world \<Rightarrow> unit result \<times> world" where
  "trim_if_over_budget tokens w =
     (if tokens > MODEL_MAX_TOKENS then
        (case list_pop0 (ALL_MESSAGES w) w of
           (Returned m, w1) \<Rightarrow> (Returned (), w1)
         | (Exited n, w1) \<Rightarrow> (Exited n, w1)
         | (Raised e, w1) \<Rightarrow> (Raised e, w1))
      else (Returned (), w))"

text \<open>
  One pass through the body of \<^verbatim>\<open>while True\<close> in \<^verbatim>\<open>main\<close>. \<open>Returned ()\<close> means
  that the loop goes on with the next pass.
\<close>

definition main_iteration :: "client \<Rightarrow> world \<Rightarrow> unit result \<times> world" where
  "main_iteration c w =
     (case get_user_input w of
        (Exited n, w1) \<Rightarrow> (Exited n, w1)
      | (Raised e, w1) \<Rightarrow> (Raised e, w1)
      | (Returned None, w1) \<Rightarrow> (Returned (), w1)
      | (Returned (Some text), w1) \<Rightarrow>
          if text = [] then (Returned (), w1)
          else
            (let w2 = list_append (ALL_MESSAGES w1) \<lparr>role = ''user'', content = text\<rparr> w1
             in case open_file ''system_message.txt'' w2 of
                  Exited n \<Rightarrow> (Exited n, w2)
                | Raised e \<Rightarrow> (Raised e, w2)
                | Returned template \<Rightarrow>
                    (case open_file ''scratchpad.txt'' w2 of
                       Exited n \<Rightarrow> (Exited n, w2)
                     | Raised e \<Rightarrow> (Raised e, w2)
                     | Returned scratchpad \<Rightarrow>
                         (let system_message = replace ''<<CODE>>'' scratchpad template;
                              (conversation, w3) = build_request system_message w2
                          in case do_chatbot_conversation_exchange c conversation w3 of
                               (Exited n, w4) \<Rightarrow> (Exited n, w4)
                             | (Raised e, w4) \<Rightarrow> (Raised e, w4)
                             | (Returned (response, tokens, processing_time), w4) \<Rightarrow>
                                 (case trim_if_over_budget tokens w4 of
                                    (Exited n, w5) \<Rightarrow> (Exited n, w5)
                                  | (Raised e, w5) \<Rightarrow> (Raised e, w5)
                                  | (Returned u, w5) \<Rightarrow>
                                      (Returned (),
                                       list_append (ALL_MESSAGES w5)
                                         \<lparr>role = ''assistant'', content = response\<rparr> w5))))))"

section \<open>Clients and histories the properties speak about\<close>

text \<open>The history: the list object that \<^verbatim>\<open>app_state.ALL_MESSAGES\<close> refers to.\<close>

abbreviation history :: "world \<Rightarrow> message list" where
  "history w \<equiv> heap w (ALL_MESSAGES w)"

text \<open>A client that fails at every call with an error that is not a context-length error.\<close>

definition always_other_error :: "client \<Rightarrow> bool" where
  "always_other_error c =
     (\<forall>n sent. case c n sent of Inl e \<Rightarrow> \<not> contains ''maximum context length'' e | Inr r \<Rightarrow> False)"

text \<open>
  A client that, from call number \<open>k\<close> on, fails \<open>N\<close> times with a context-length error,
  each time on the envelope shortened by the earlier failures, and then answers \<open>r\<close>.
\<close>

definition context_errors_then_success ::
  "client \<Rightarrow> nat \<Rightarrow> message list \<Rightarrow> nat \<Rightarrow> response \<Rightarrow> bool" where
  "context_errors_then_success c k sent N r =
     ((\<forall>i<N. case c (k + i) (drop i sent) of
                Inl e \<Rightarrow> contains ''maximum context length'' e
              | Inr r' \<Rightarrow> False) \<and>
      c (k + N) (drop N sent) = Inr r)"

text \<open>
  A client whose calls number \<open>k\<close> to \<open>k + N - 1\<close> each fail with a context-length error,
  on the envelope shortened by the earlier failures.
\<close>

definition context_errors :: "client \<Rightarrow> nat \<Rightarrow> message list \<Rightarrow> nat \<Rightarrow> bool" where
  "context_errors c k sent N =
     (\<forall>i<N. case c (k + i) (drop i sent) of
               Inl e \<Rightarrow> contains ''maximum context length'' e
             | Inr r \<Rightarrow> False)"

text \<open>
  A client none of whose calls succeeds: it raises, or its response has no choice to read.
\<close>

definition always_fails :: "client \<Rightarrow> bool" where
  "always_fails c = (\<forall>n sent. case c n sent of Inl e \<Rightarrow> True | Inr r \<Rightarrow> choices r = [])"


text \<open>
  One change of a list as the data model allows it for the history: a message is added
  at the end, or the message at index 0 is removed. The other entries keep their order
  and their content.
\<close>

inductive mutation :: "message list \<Rightarrow> message list \<Rightarrow> bool" where
  append_one: "mutation h (h @ [m])"
| remove_first: "mutation (m # h) h"

text \<open>
  The envelopes one exchange may transmit, from call number \<open>n\<close> on and starting with the
  envelope \<open>E\<close>: \<open>E\<close> itself; then, after a failure of another kind, what follows from \<open>E\<close>
  again, and after a context-length failure, what follows from \<open>E\<close> without its first
  message.
\<close>

inductive sends :: "client \<Rightarrow> nat \<Rightarrow> message list \<Rightarrow> message list list \<Rightarrow> bool" for c where
  last_call: "sends c n E [E]"
| after_other_failure:
    "attempt c n E = Inl e \<Longrightarrow> \<not> contains ''maximum context length'' e \<Longrightarrow>
     sends c (Suc n) E es \<Longrightarrow> sends c n E (E # es)"
| after_context_failure:
    "attempt c n (x # xs) = Inl e \<Longrightarrow> contains ''maximum context length'' e \<Longrightarrow>
     sends c (Suc n) xs es \<Longrightarrow> sends c n (x # xs) ((x # xs) # es)"

section \<open>Concrete inputs\<close>

text \<open>
  A client that answers from a script: call number \<open>n\<close> gets the \<open>n\<close>-th entry, and
  every call after the end of the script gets \<open>dflt\<close>.
\<close>

definition scripted :: "(string + response) list \<Rightarrow> (string + response) \<Rightarrow> client" where
  "scripted script dflt n sent = (if n < length script then script ! n else dflt)"

definition context_error :: "string + response" where
  "context_error = Inl ''This model's maximum context length is 8192 tokens.''"

definition other_error :: "string + response" where
  "other_error = Inl ''Rate limit reached''"

definition msg :: "string \<Rightarrow> string \<Rightarrow> message" where
  "msg r t = \<lparr>role = r, content = t\<rparr>"

definition response_ok :: response where
  "response_ok = \<lparr>choices = [msg ''assistant'' ''hello''], total_tokens = 42, seconds = 1\<rparr>"

definition reply_ok :: "string + response" where
  "reply_ok = Inr response_ok"

text \<open>An answer whose reported usage is above the budget of 7500 tokens.\<close>

definition reply_big :: "string + response" where
  "reply_big = Inr \<lparr>choices = [msg ''assistant'' ''hello''], total_tokens = 8000, seconds = 2\<rparr>"

text \<open>
  A state in which the history is the object at address 0 and holds one earlier exchange,
  and an envelope of two messages is the object at address 1.
\<close>

definition world0 :: world where
  "world0 = \<lparr>heap = (\<lambda>a. [])(0 := [msg ''user'' ''a'', msg ''assistant'' ''b''],
                               1 := [msg ''user'' ''hi'', msg ''system'' ''You are helpful. '']),
             next_free = 2, ALL_MESSAGES = 0,
             files = [''system_message.txt'' \<mapsto> ''You are helpful. <<CODE>>'',
                      ''scratchpad.txt'' \<mapsto> ''''],
             stdin = [], sleeps = [], calls = []\<rparr>"

text \<open>The same state with an envelope of eight messages at address 1.\<close>

definition envelope8 :: "message list" where
  "envelope8 = [msg ''user'' ''1'', msg ''assistant'' ''2'', msg ''user'' ''3'',
                msg ''assistant'' ''4'', msg ''user'' ''5'', msg ''assistant'' ''6'',
                msg ''user'' ''7'', msg ''system'' ''8'']"

definition world8 :: world where
  "world8 = world0\<lparr>heap := (heap world0)(1 := envelope8)\<rparr>"

text \<open>The same state when the user is about to enter the line \<^verbatim>\<open>hi\<close>.\<close>

definition world_hi :: world where
  "world_hi = world0\<lparr>stdin := [''hi'']\<rparr>"

text \<open>The state of a fresh session (empty history) when the user is about to enter \<^verbatim>\<open>hi\<close>.\<close>

definition world_fresh :: world where
  "world_fresh = world0\<lparr>heap := (heap world0)(0 := []), stdin := [''hi'']\<rparr>"

text \<open>
  A fresh session whose two files hold carriage returns: the template a lone one, the
  scratchpad one followed by a line feed.
\<close>

definition world_crlf :: world where
  "world_crlf = world_fresh\<lparr>files :=
     [''system_message.txt'' \<mapsto> ''Code:'' @ [CHR 0x0D] @ ''<<CODE>> end'',
      ''scratchpad.txt'' \<mapsto> ''x'' @ [CHR 0x0D, CHR 0x0A] @ ''y'']\<rparr>"

section \<open>The retry loop: backoff\<close>

lemma range_max_retry: "[0..<max_retry] = [0, 1, 2, 3, 4, 5, 6]"
  by (simp add: max_retry_def upt_rec)

lemma replicate_7: "replicate 7 x = [x, x, x, x, x, x, x]"
  by (simp add: numeral_eq_Suc)

lemma always_other_error_attempt:
  assumes "always_other_error c"
  obtains e where "attempt c n sent = Inl e" and "\<not> contains ''maximum context length'' e"
proof -
  from assms have "case c n sent of Inl e \<Rightarrow> \<not> contains ''maximum context length'' e | Inr r \<Rightarrow> False"
    unfolding always_other_error_def by blast
  then show thesis
    by (cases "c n sent") (auto simp: attempt_def intro: that)
qed

lemma retry_loop_other_errors:
  assumes "always_other_error c"
  shows "retry_loop c rs conversation w =
           (Exited 1, w\<lparr>calls := calls w @ replicate (length rs) (heap w conversation),
                         sleeps := sleeps w @ map (\<lambda>retry. 2 ^ retry * 5) rs\<rparr>)"
proof (induction rs arbitrary: w)
  case Nil
  show ?case by simp
next
  case (Cons retry rest)
  obtain e where e: "attempt c (length (calls w)) (heap w conversation) = Inl e"
    and ne: "\<not> contains ''maximum context length'' e"
    using assms by (rule always_other_error_attempt)
  show ?case
    by (simp add: e ne handle_error_def Cons.IH Let_def)
qed

text \<open>
  C3. When the remote client fails at every attempt with an error that is not a
  context-length error, the exchange calls the client exactly 7 times, each time with the
  unchanged envelope, requests the sleeps 5, 10, 20, 40, 80, 160 and 320 seconds in this
  order, and then ends in \<^verbatim>\<open>exit(1)\<close>.
\<close>

theorem backoff_schedule:
  assumes "always_other_error c"
  shows "do_chatbot_conversation_exchange c conversation w =
           (Exited 1, w\<lparr>calls := calls w @ replicate 7 (heap w conversation),
                         sleeps := sleeps w @ [5, 10, 20, 40, 80, 160, 320]\<rparr>)"
proof -
  have "retry_loop c [0, 1, 2, 3, 4, 5, 6] conversation w =
          (Exited 1, w\<lparr>calls := calls w @ replicate (length [0, 1, 2, 3, 4, 5, 6 :: nat]) (heap w conversation),
                        sleeps := sleeps w @ map (\<lambda>retry. 2 ^ retry * 5) [0, 1, 2, 3, 4, 5, 6]\<rparr>)"
    using assms by (rule retry_loop_other_errors)
  then show ?thesis
    unfolding do_chatbot_conversation_exchange_def range_max_retry
    by (simp add: replicate_7)
qed

theorem backoff_schedule_witness:
  "always_other_error (scripted [] other_error) \<and>
   do_chatbot_conversation_exchange (scripted [] other_error) 1 world0 =
     (Exited 1, world0\<lparr>calls := calls world0 @ replicate 7 (heap world0 1),
                        sleeps := sleeps world0 @ [5, 10, 20, 40, 80, 160, 320]\<rparr>)"
proof -
  have h: "always_other_error (scripted [] other_error)"
    by (simp add: always_other_error_def scripted_def other_error_def)
  from h backoff_schedule [OF h, of 1 world0] show ?thesis by simp
qed

section \<open>The retry loop: context-length errors\<close>

lemma context_errors_then_success_Suc:
  assumes "context_errors_then_success c k (m # ms) (Suc N) r"
  shows "context_errors_then_success c (Suc k) ms N r"
    and "\<exists>e. c k (m # ms) = Inl e \<and> contains ''maximum context length'' e"
proof -
  from assms have all: "\<forall>i<Suc N. case c (k + i) (drop i (m # ms)) of
                Inl e \<Rightarrow> contains ''maximum context length'' e | Inr r' \<Rightarrow> False"
    and last: "c (k + Suc N) (drop (Suc N) (m # ms)) = Inr r"
    unfolding context_errors_then_success_def by blast+
  have "\<forall>i<N. case c (Suc k + i) (drop i ms) of
                Inl e \<Rightarrow> contains ''maximum context length'' e | Inr r' \<Rightarrow> False"
  proof (intro allI impI)
    fix i assume "i < N"
    then have "Suc i < Suc N" by simp
    with all have "case c (k + Suc i) (drop (Suc i) (m # ms)) of
                Inl e \<Rightarrow> contains ''maximum context length'' e | Inr r' \<Rightarrow> False" by blast
    then show "case c (Suc k + i) (drop i ms) of
                Inl e \<Rightarrow> contains ''maximum context length'' e | Inr r' \<Rightarrow> False" by simp
  qed
  with last show "context_errors_then_success c (Suc k) ms N r"
    unfolding context_errors_then_success_def by simp
  from all have "case c (k + 0) (drop 0 (m # ms)) of
                Inl e \<Rightarrow> contains ''maximum context length'' e | Inr r' \<Rightarrow> False" by blast
  then show "\<exists>e. c k (m # ms) = Inl e \<and> contains ''maximum context length'' e"
    by (cases "c k (m # ms)") auto
qed

lemma retry_loop_context_errors:
  assumes "N < length rs" and "N \<le> length (heap w conversation)"
    and "context_errors_then_success c (length (calls w)) (heap w conversation) N r"
    and "choices r = m # ms"
  shows "retry_loop c rs conversation w =
           (Returned (content m, total_tokens r, seconds r),
            w\<lparr>calls := calls w @ map (\<lambda>i. drop i (heap w conversation)) [0..<Suc N],
              heap := (heap w)(conversation := drop N (heap w conversation))\<rparr>)"
  using assms
proof (induction N arbitrary: rs w)
  case 0
  then obtain retry rest where rs: "rs = retry # rest" by (cases rs) auto
  from 0 have "c (length (calls w)) (heap w conversation) = Inr r"
    by (simp add: context_errors_then_success_def)
  with 0 show ?case by (simp add: rs attempt_def Let_def)
next
  case (Suc N)
  then obtain retry rest where rs: "rs = retry # rest" by (cases rs) auto
  from Suc.prems obtain x xs where sent: "heap w conversation = x # xs"
    by (cases "heap w conversation") auto
  let ?w1 = "w\<lparr>calls := calls w @ [x # xs], heap := (heap w)(conversation := xs)\<rparr>"
  from Suc.prems(3) have ces: "context_errors_then_success c (length (calls w)) (x # xs) (Suc N) r"
    by (simp add: sent)
  from context_errors_then_success_Suc(2) [OF ces]
  obtain e where e: "c (length (calls w)) (x # xs) = Inl e" and ce: "contains ''maximum context length'' e"
    by blast
  have next_ces: "context_errors_then_success c (length (calls ?w1)) (heap ?w1 conversation) N r"
    using context_errors_then_success_Suc(1) [OF ces] by simp
  have IH: "retry_loop c rest conversation ?w1 =
           (Returned (content m, total_tokens r, seconds r),
            ?w1\<lparr>calls := calls ?w1 @ map (\<lambda>i. drop i (heap ?w1 conversation)) [0..<Suc N],
              heap := (heap ?w1)(conversation := drop N (heap ?w1 conversation))\<rparr>)"
  proof (rule Suc.IH)
    show "N < length rest" using Suc.prems(1) rs by simp
    show "N \<le> length (heap ?w1 conversation)" using Suc.prems(2) sent by simp
    show "context_errors_then_success c (length (calls ?w1)) (heap ?w1 conversation) N r"
      by (rule next_ces)
    show "choices r = m # ms" by (rule Suc.prems(4))
  qed
  have step: "retry_loop c (retry # rest) conversation w = retry_loop c rest conversation ?w1"
    by (simp add: sent attempt_def e ce handle_error_def list_pop0_def Let_def)
  have maps: "map (\<lambda>i. drop i (x # xs)) [0..<Suc (Suc N)] = (x # xs) # map (\<lambda>i. drop i xs) [0..<Suc N]"
    by (subst map_upt_Suc) simp
  have heap_eq: "(heap ?w1)(conversation := drop N (heap ?w1 conversation)) =
                 (heap w)(conversation := drop (Suc N) (heap w conversation))"
    by (simp add: sent)
  have calls_eq: "calls ?w1 @ map (\<lambda>i. drop i (heap ?w1 conversation)) [0..<Suc N] =
                  calls w @ map (\<lambda>i. drop i (heap w conversation)) [0..<Suc (Suc N)]"
    using maps by (simp add: sent)
  have eq: "?w1\<lparr>calls := calls ?w1 @ map (\<lambda>i. drop i (heap ?w1 conversation)) [0..<Suc N],
              heap := (heap ?w1)(conversation := drop N (heap ?w1 conversation))\<rparr> =
        w\<lparr>calls := calls w @ map (\<lambda>i. drop i (heap w conversation)) [0..<Suc (Suc N)],
              heap := (heap w)(conversation := drop (Suc N) (heap w conversation))\<rparr>"
    unfolding heap_eq calls_eq by simp
  show ?case
    by (simp only: rs step IH eq)
qed

lemma context_errors_Suc:
  assumes "context_errors c k (x # xs) (Suc N)"
  shows "context_errors c (Suc k) xs N"
    and "\<exists>e. c k (x # xs) = Inl e \<and> contains ''maximum context length'' e"
proof -
  from assms have all: "\<forall>i<Suc N. case c (k + i) (drop i (x # xs)) of
                Inl e \<Rightarrow> contains ''maximum context length'' e | Inr r \<Rightarrow> False"
    unfolding context_errors_def by blast
  have "\<forall>i<N. case c (Suc k + i) (drop i xs) of
                Inl e \<Rightarrow> contains ''maximum context length'' e | Inr r \<Rightarrow> False"
  proof (intro allI impI)
    fix i assume "i < N"
    then have "Suc i < Suc N" by simp
    with all have "case c (k + Suc i) (drop (Suc i) (x # xs)) of
                Inl e \<Rightarrow> contains ''maximum context length'' e | Inr r \<Rightarrow> False" by blast
    then show "case c (Suc k + i) (drop i xs) of
                Inl e \<Rightarrow> contains ''maximum context length'' e | Inr r \<Rightarrow> False" by simp
  qed
  then show "context_errors c (Suc k) xs N" unfolding context_errors_def .
  from all have "case c (k + 0) (drop 0 (x # xs)) of
                Inl e \<Rightarrow> contains ''maximum context length'' e | Inr r \<Rightarrow> False" by blast
  then show "\<exists>e. c k (x # xs) = Inl e \<and> contains ''maximum context length'' e"
    by (cases "c k (x # xs)") auto
qed

lemma context_errors_mono:
  "context_errors c k sent N \<Longrightarrow> M \<le> N \<Longrightarrow> context_errors c k sent M"
  unfolding context_errors_def by auto

lemma retry_loop_context_prefix:
  assumes "N \<le> length rs" and "N \<le> length (heap w conversation)"
    and "context_errors c (length (calls w)) (heap w conversation) N"
  shows "retry_loop c rs conversation w =
           retry_loop c (drop N rs) conversation
             (w\<lparr>calls := calls w @ map (\<lambda>i. drop i (heap w conversation)) [0..<N],
               heap := (heap w)(conversation := drop N (heap w conversation))\<rparr>)"
  using assms
proof (induction N arbitrary: rs w)
  case 0
  have "w\<lparr>calls := calls w @ map (\<lambda>i. drop i (heap w conversation)) [0..<0],
               heap := (heap w)(conversation := drop 0 (heap w conversation))\<rparr> = w"
    by simp
  then show ?case by simp
next
  case (Suc N)
  then obtain retry rest where rs: "rs = retry # rest" by (cases rs) auto
  from Suc.prems obtain x xs where sent: "heap w conversation = x # xs"
    by (cases "heap w conversation") auto
  let ?w1 = "w\<lparr>calls := calls w @ [x # xs], heap := (heap w)(conversation := xs)\<rparr>"
  from Suc.prems(3) have ces: "context_errors c (length (calls w)) (x # xs) (Suc N)"
    by (simp add: sent)
  from context_errors_Suc(2) [OF ces]
  obtain e where e: "c (length (calls w)) (x # xs) = Inl e" and ce: "contains ''maximum context length'' e"
    by blast
  have next_ces: "context_errors c (length (calls ?w1)) (heap ?w1 conversation) N"
    using context_errors_Suc(1) [OF ces] by simp
  have IH: "retry_loop c rest conversation ?w1 =
           retry_loop c (drop N rest) conversation
            (?w1\<lparr>calls := calls ?w1 @ map (\<lambda>i. drop i (heap ?w1 conversation)) [0..<N],
              heap := (heap ?w1)(conversation := drop N (heap ?w1 conversation))\<rparr>)"
  proof (rule Suc.IH)
    show "N \<le> length rest" using Suc.prems(1) rs by simp
    show "N \<le> length (heap ?w1 conversation)" using Suc.prems(2) sent by simp
    show "context_errors c (length (calls ?w1)) (heap ?w1 conversation) N" by (rule next_ces)
  qed
  have step: "retry_loop c (retry # rest) conversation w = retry_loop c rest conversation ?w1"
    by (simp add: sent attempt_def e ce handle_error_def list_pop0_def Let_def)
  have maps: "map (\<lambda>i. drop i (x # xs)) [0..<Suc N] = (x # xs) # map (\<lambda>i. drop i xs) [0..<N]"
    by (subst map_upt_Suc) simp
  have heap_eq: "(heap ?w1)(conversation := drop N (heap ?w1 conversation)) =
                 (heap w)(conversation := drop (Suc N) (heap w conversation))"
    by (simp add: sent)
  have calls_eq: "calls ?w1 @ map (\<lambda>i. drop i (heap ?w1 conversation)) [0..<N] =
                  calls w @ map (\<lambda>i. drop i (heap w conversation)) [0..<Suc N]"
    using maps by (simp add: sent)
  have eq: "?w1\<lparr>calls := calls ?w1 @ map (\<lambda>i. drop i (heap ?w1 conversation)) [0..<N],
              heap := (heap ?w1)(conversation := drop N (heap ?w1 conversation))\<rparr> =
        w\<lparr>calls := calls w @ map (\<lambda>i. drop i (heap w conversation)) [0..<Suc N],
              heap := (heap w)(conversation := drop (Suc N) (heap w conversation))\<rparr>"
    unfolding heap_eq calls_eq by simp
  have d: "drop (Suc N) (retry # rest) = drop N rest" by simp
  show ?case
    by (simp only: rs step IH eq d)
qed

lemma retry_loop_sleeps:
  "\<exists>ss. sleeps (snd (retry_loop c rs conversation w)) = sleeps w @ ss"
proof (induction rs arbitrary: w)
  case Nil
  show ?case by simp
next
  case (Cons retry rest)
  let ?sent = "heap w conversation"
  let ?w1 = "w\<lparr>calls := calls w @ [?sent]\<rparr>"
  show ?case
  proof (cases "attempt c (length (calls w)) ?sent")
    case (Inr ok)
    then show ?thesis by (simp add: Let_def)
  next
    case (Inl e)
    show ?thesis
    proof (cases "contains ''maximum context length'' e")
      case False
      with Inl have "retry_loop c (retry # rest) conversation w =
               retry_loop c rest conversation (?w1\<lparr>sleeps := sleeps ?w1 @ [2 ^ retry * 5]\<rparr>)"
        by (simp add: Let_def handle_error_def)
      with Cons.IH [of "?w1\<lparr>sleeps := sleeps ?w1 @ [2 ^ retry * 5]\<rparr>"] show ?thesis by auto
    next
      case True
      show ?thesis
      proof (cases ?sent)
        case Nil
        with True Inl show ?thesis by (simp add: Let_def handle_error_def list_pop0_def)
      next
        case (Cons x xs)
        with True Inl have "retry_loop c (retry # rest) conversation w =
               retry_loop c rest conversation (?w1\<lparr>heap := (heap ?w1)(conversation := xs)\<rparr>)"
          by (simp add: Let_def handle_error_def list_pop0_def)
        with Cons.IH [of "?w1\<lparr>heap := (heap ?w1)(conversation := xs)\<rparr>"] show ?thesis by auto
      qed
    qed
  qed
qed

text \<open>
  C1, as the code has it. Let the first \<open>N\<close> calls of an exchange each fail with a
  context-length error, on an envelope of at least \<open>N\<close> messages. Then each of these
  failures removes exactly one message from the front of the envelope, is followed at
  once by the next attempt without a sleep, and uses up one pass of the loop: wherever in
  the loop they happen, the loop goes on with the indices left after \<open>N\<close> of them, on the
  envelope without its first \<open>N\<close> messages, and nothing else has changed but the record
  of the calls. Hence, for \<open>N \<le> 6\<close>: if call number \<open>N\<close> succeeds, the exchange returns its
  answer after \<open>N + 1\<close> calls, no sleep is recorded and the successful call got the envelope
  without its first \<open>N\<close> messages; if call number \<open>N\<close> fails in another way, the sleep
  that follows is \<open>5 * 2 ^ N\<close> seconds, the backoff of attempt index \<open>N\<close>. And seven
  context-length failures in a row end the exchange in \<^verbatim>\<open>exit(1)\<close> after 7 calls.
\<close>

theorem context_retry_consumes_attempt:
  assumes "N \<le> length (heap w conversation)"
    and "context_errors c (length (calls w)) (heap w conversation) N"
  shows "(\<forall>rs. N \<le> length rs \<longrightarrow>
            retry_loop c rs conversation w =
              retry_loop c (drop N rs) conversation
                (w\<lparr>calls := calls w @ map (\<lambda>i. drop i (heap w conversation)) [0..<N],
                  heap := (heap w)(conversation := drop N (heap w conversation))\<rparr>)) \<and>
         (N < 7 \<longrightarrow>
            (\<forall>r m ms. c (length (calls w) + N) (drop N (heap w conversation)) = Inr r \<longrightarrow>
               choices r = m # ms \<longrightarrow>
               do_chatbot_conversation_exchange c conversation w =
                 (Returned (content m, total_tokens r, seconds r),
                  w\<lparr>calls := calls w @ map (\<lambda>i. drop i (heap w conversation)) [0..<Suc N],
                    heap := (heap w)(conversation := drop N (heap w conversation))\<rparr>))) \<and>
         (N < 7 \<longrightarrow>
            (\<forall>e. c (length (calls w) + N) (drop N (heap w conversation)) = Inl e \<longrightarrow>
               \<not> contains ''maximum context length'' e \<longrightarrow>
               (\<exists>ss. sleeps (snd (do_chatbot_conversation_exchange c conversation w)) =
                       sleeps w @ (5 * 2 ^ N) # ss))) \<and>
         (7 \<le> N \<longrightarrow>
            do_chatbot_conversation_exchange c conversation w =
              (Exited 1,
               w\<lparr>calls := calls w @ map (\<lambda>i. drop i (heap w conversation)) [0..<7],
                 heap := (heap w)(conversation := drop 7 (heap w conversation))\<rparr>))"
proof (intro conjI allI impI)
  fix rs :: "nat list"
  assume "N \<le> length rs"
  then show "retry_loop c rs conversation w =
              retry_loop c (drop N rs) conversation
                (w\<lparr>calls := calls w @ map (\<lambda>i. drop i (heap w conversation)) [0..<N],
                  heap := (heap w)(conversation := drop N (heap w conversation))\<rparr>)"
    using assms by (rule retry_loop_context_prefix)
next
  fix r m ms
  assume "N < 7" and "c (length (calls w) + N) (drop N (heap w conversation)) = Inr r"
    and "choices r = m # ms"
  with assms have "context_errors_then_success c (length (calls w)) (heap w conversation) N r"
    by (simp add: context_errors_then_success_def context_errors_def)
  with \<open>N < 7\<close> assms(1) \<open>choices r = m # ms\<close>
  show "do_chatbot_conversation_exchange c conversation w =
                 (Returned (content m, total_tokens r, seconds r),
                  w\<lparr>calls := calls w @ map (\<lambda>i. drop i (heap w conversation)) [0..<Suc N],
                    heap := (heap w)(conversation := drop N (heap w conversation))\<rparr>)"
    unfolding do_chatbot_conversation_exchange_def
    by (intro retry_loop_context_errors) (simp_all add: max_retry_def)
next
  fix e
  assume N: "N < 7" and e: "c (length (calls w) + N) (drop N (heap w conversation)) = Inl e"
    and ne: "\<not> contains ''maximum context length'' e"
  let ?wN = "w\<lparr>calls := calls w @ map (\<lambda>i. drop i (heap w conversation)) [0..<N],
                  heap := (heap w)(conversation := drop N (heap w conversation))\<rparr>"
  let ?wS = "?wN\<lparr>calls := calls ?wN @ [heap ?wN conversation], sleeps := sleeps w @ [2 ^ N * 5]\<rparr>"
  from N have "N \<le> length [0..<max_retry]" by (simp add: max_retry_def)
  from retry_loop_context_prefix [OF this assms]
  have "do_chatbot_conversation_exchange c conversation w = retry_loop c [N..<7] conversation ?wN"
    using N by (simp add: do_chatbot_conversation_exchange_def max_retry_def)
  also have "[N..<7] = N # [Suc N..<7]" using N by (simp add: upt_conv_Cons)
  also have "retry_loop c (N # [Suc N..<7]) conversation ?wN = retry_loop c [Suc N..<7] conversation ?wS"
    using e ne by (simp add: attempt_def handle_error_def Let_def)
  finally have "do_chatbot_conversation_exchange c conversation w =
                retry_loop c [Suc N..<7] conversation ?wS" .
  moreover from retry_loop_sleeps [of c "[Suc N..<7]" conversation ?wS]
  obtain ss where "sleeps (snd (retry_loop c [Suc N..<7] conversation ?wS)) = sleeps ?wS @ ss"
    by blast
  ultimately have "sleeps (snd (do_chatbot_conversation_exchange c conversation w)) =
                   sleeps w @ (5 * 2 ^ N) # ss"
    by (simp add: mult.commute)
  then show "\<exists>ss. sleeps (snd (do_chatbot_conversation_exchange c conversation w)) =
                       sleeps w @ (5 * 2 ^ N) # ss" by blast
next
  assume N: "7 \<le> N"
  with assms have 1: "7 \<le> length (heap w conversation)"
    and 2: "context_errors c (length (calls w)) (heap w conversation) 7"
    by (auto intro: context_errors_mono)
  have 3: "7 \<le> length [0..<max_retry]" by (simp add: max_retry_def)
  from retry_loop_context_prefix [OF 3 1 2]
  show "do_chatbot_conversation_exchange c conversation w =
              (Exited 1,
               w\<lparr>calls := calls w @ map (\<lambda>i. drop i (heap w conversation)) [0..<7],
                 heap := (heap w)(conversation := drop 7 (heap w conversation))\<rparr>)"
    by (simp add: do_chatbot_conversation_exchange_def max_retry_def)
qed

theorem context_retry_consumes_attempt_witness:
  "2 \<le> length (heap world0 1) \<and>
   context_errors (scripted [context_error, context_error] reply_ok)
     (length (calls world0)) (heap world0 1) 2 \<and>
   do_chatbot_conversation_exchange (scripted [context_error, context_error] reply_ok) 1 world0 =
     (Returned (''hello'', 42, 1),
      world0\<lparr>calls := [[msg ''user'' ''hi'', msg ''system'' ''You are helpful. ''],
                         [msg ''system'' ''You are helpful. ''], []],
             heap := (heap world0)(1 := [])\<rparr>) \<and>
   context_errors (scripted [context_error, other_error] reply_ok)
     (length (calls world0)) (heap world0 1) 1 \<and>
   (\<exists>ss. sleeps (snd (do_chatbot_conversation_exchange
                         (scripted [context_error, other_error] reply_ok) 1 world0)) = 10 # ss) \<and>
   7 \<le> length (heap world8 1) \<and>
   context_errors (scripted (replicate 7 context_error) reply_ok)
     (length (calls world8)) (heap world8 1) 7 \<and>
   fst (do_chatbot_conversation_exchange (scripted (replicate 7 context_error) reply_ok) 1 world8) =
     Exited 1"
proof -
  have a1: "2 \<le> length (heap world0 1)" by (simp add: world0_def)
  have a2: "context_errors (scripted [context_error, context_error] reply_ok)
              (length (calls world0)) (heap world0 1) 2"
    by (simp add: context_errors_def scripted_def context_error_def world0_def less_Suc_eq
        numeral_2_eq_2)
  have a3: "(2::nat) < 7" by simp
  have a4: "scripted [context_error, context_error] reply_ok (length (calls world0) + 2)
              (drop 2 (heap world0 1)) = Inr response_ok"
    by (simp add: scripted_def reply_ok_def)
  have a5: "choices response_ok = msg ''assistant'' ''hello'' # []" by (simp add: response_ok_def)
  from context_retry_consumes_attempt [OF a1 a2, THEN conjunct2, THEN conjunct1, rule_format,
      OF a3 a4 a5]
  have A: "do_chatbot_conversation_exchange (scripted [context_error, context_error] reply_ok) 1 world0 =
     (Returned (''hello'', 42, 1),
      world0\<lparr>calls := [[msg ''user'' ''hi'', msg ''system'' ''You are helpful. ''],
                         [msg ''system'' ''You are helpful. ''], []],
             heap := (heap world0)(1 := [])\<rparr>)"
    by (simp add: world0_def msg_def response_ok_def upt_rec numeral_2_eq_2)
  have b1: "1 \<le> length (heap world0 1)" by (simp add: world0_def)
  have b2: "context_errors (scripted [context_error, other_error] reply_ok)
              (length (calls world0)) (heap world0 1) 1"
    by (simp add: context_errors_def scripted_def context_error_def world0_def)
  have b3: "(1::nat) < 7" by simp
  have b4: "scripted [context_error, other_error] reply_ok (length (calls world0) + 1)
              (drop 1 (heap world0 1)) = Inl ''Rate limit reached''"
    by (simp add: scripted_def other_error_def world0_def)
  have b5: "\<not> contains ''maximum context length'' ''Rate limit reached''" by simp
  from context_retry_consumes_attempt [OF b1 b2, THEN conjunct2, THEN conjunct2, THEN conjunct1,
      rule_format, OF b3 b4 b5]
  have B: "\<exists>ss. sleeps (snd (do_chatbot_conversation_exchange
                         (scripted [context_error, other_error] reply_ok) 1 world0)) = 10 # ss"
    by (simp add: world0_def)
  have c1: "7 \<le> length (heap world8 1)" by (simp add: world8_def envelope8_def)
  have c2: "context_errors (scripted (replicate 7 context_error) reply_ok)
              (length (calls world8)) (heap world8 1) 7"
    by (simp add: context_errors_def scripted_def context_error_def world8_def world0_def)
  have c3: "(7::nat) \<le> 7" by simp
  from context_retry_consumes_attempt [OF c1 c2, THEN conjunct2, THEN conjunct2, THEN conjunct2,
      rule_format, OF c3]
  have C: "fst (do_chatbot_conversation_exchange (scripted (replicate 7 context_error) reply_ok) 1 world8) =
     Exited 1"
    by simp
  from a1 a2 A b2 B c1 c2 C show ?thesis by blast
qed

text \<open>
  The claim as stated fails: seven context-length failures in a row use up the seven
  attempts, so the exchange ends in \<^verbatim>\<open>exit(1)\<close> although the eighth call would have
  succeeded and the envelope of eight messages was never empty; and a failure of another
  kind that follows one context-length failure sleeps 10 seconds (attempt index 1), not 5.
\<close>

theorem context_retry_counterexample:
  "fst (do_chatbot_conversation_exchange
          (scripted [context_error, context_error, context_error, context_error,
                     context_error, context_error, context_error] reply_ok) 1 world8) = Exited 1 \<and>
   sleeps (snd (do_chatbot_conversation_exchange
                  (scripted [context_error, other_error] reply_ok) 1 world0)) = [10]"
  by (simp add: do_chatbot_conversation_exchange_def range_max_retry scripted_def
      context_error_def other_error_def reply_ok_def response_ok_def world8_def world0_def
      envelope8_def attempt_def handle_error_def list_pop0_def msg_def)

section \<open>The retry loop: what reaches the caller\<close>

text \<open>
  Whatever the client does, the exchange returns a result, ends in \<^verbatim>\<open>exit(1)\<close>, or
  lets an IndexError escape; the last can only happen to an envelope of fewer messages
  than there are attempts.
\<close>

lemma retry_loop_outcomes:
  "(\<exists>x. fst (retry_loop c rs conversation w) = Returned x) \<or>
   fst (retry_loop c rs conversation w) = Exited 1 \<or>
   (fst (retry_loop c rs conversation w) = Raised IndexError \<and>
    length (heap w conversation) < length rs)"
proof (induction rs arbitrary: w)
  case Nil
  show ?case by simp
next
  case (Cons retry rest)
  let ?sent = "heap w conversation"
  let ?w1 = "w\<lparr>calls := calls w @ [?sent]\<rparr>"
  show ?case
  proof (cases "attempt c (length (calls w)) ?sent")
    case (Inr ok)
    then have "fst (retry_loop c (retry # rest) conversation w) = Returned ok"
      by (simp add: Let_def)
    then show ?thesis by blast
  next
    case (Inl e)
    show ?thesis
    proof (cases "contains ''maximum context length'' e")
      case False
      with Inl have "retry_loop c (retry # rest) conversation w =
               retry_loop c rest conversation (?w1\<lparr>sleeps := sleeps ?w1 @ [2 ^ retry * 5]\<rparr>)"
        by (simp add: Let_def handle_error_def)
      with Cons.IH [of "?w1\<lparr>sleeps := sleeps ?w1 @ [2 ^ retry * 5]\<rparr>"] show ?thesis by auto
    next
      case True
      show ?thesis
      proof (cases ?sent)
        case Nil
        with True Inl show ?thesis by (simp add: Let_def handle_error_def list_pop0_def)
      next
        case (Cons x xs)
        with True Inl have "retry_loop c (retry # rest) conversation w =
               retry_loop c rest conversation (?w1\<lparr>heap := (heap ?w1)(conversation := xs)\<rparr>)"
          by (simp add: Let_def handle_error_def list_pop0_def)
        with Cons.IH [of "?w1\<lparr>heap := (heap ?w1)(conversation := xs)\<rparr>"] Cons show ?thesis by auto
      qed
    qed
  qed
qed

lemma exchange_outcomes:
  "(\<exists>x. fst (do_chatbot_conversation_exchange c conversation w) = Returned x) \<or>
   fst (do_chatbot_conversation_exchange c conversation w) = Exited 1 \<or>
   (fst (do_chatbot_conversation_exchange c conversation w) = Raised IndexError \<and>
    length (heap w conversation) < 7)"
  using retry_loop_outcomes [of c "[0..<max_retry]" conversation w]
  by (simp add: do_chatbot_conversation_exchange_def max_retry_def)

text \<open>
  C2, at the input where the code departs from it. The envelope holds two messages and the
  client reports a context-length error three times: the first two failures empty the
  envelope, and at the third \<^verbatim>\<open>conversation.pop(0)\<close> raises IndexError inside the
  \<^verbatim>\<open>except\<close> clause, so the exception leaves the exchange.
\<close>

theorem exchange_raises_on_empty_envelope:
  "fst (do_chatbot_conversation_exchange
          (scripted [context_error, context_error, context_error] reply_ok) 1 world0) =
   Raised IndexError"
  by (simp add: do_chatbot_conversation_exchange_def range_max_retry scripted_def
      context_error_def reply_ok_def response_ok_def world0_def attempt_def handle_error_def
      list_pop0_def msg_def)

section \<open>The retry loop: what it leaves unchanged\<close>

lemma retry_loop_frame:
  "retry_loop c rs conversation w = (res, w') \<Longrightarrow>
     next_free w' = next_free w \<and> ALL_MESSAGES w' = ALL_MESSAGES w \<and> files w' = files w \<and>
     stdin w' = stdin w \<and> (\<forall>a. a \<noteq> conversation \<longrightarrow> heap w' a = heap w a) \<and>
     (\<exists>k. heap w' conversation = drop k (heap w conversation)) \<and>
     (\<exists>cs. calls w' = calls w @ cs \<and> length cs \<le> length rs \<and> (rs \<noteq> [] \<longrightarrow> cs \<noteq> [] \<and> hd cs = heap w conversation))"
proof (induction rs arbitrary: w)
  case Nil
  then show ?case by (auto intro: exI [of _ 0])
next
  case (Cons retry rest)
  let ?sent = "heap w conversation"
  let ?w1 = "w\<lparr>calls := calls w @ [?sent]\<rparr>"
  show ?case
  proof (cases "attempt c (length (calls w)) ?sent")
    case (Inr ok)
    with Cons.prems show ?thesis by (auto simp: Let_def intro: exI [of _ 0])
  next
    case (Inl err)
    show ?thesis
    proof (cases "contains ''maximum context length'' err")
      case False
      with Inl Cons.prems
      have "retry_loop c rest conversation (?w1\<lparr>sleeps := sleeps ?w1 @ [2 ^ retry * 5]\<rparr>) = (res, w')"
        by (simp add: Let_def handle_error_def)
      from Cons.IH [OF this] show ?thesis
        by (auto)
    next
      case True
      show ?thesis
      proof (cases ?sent)
        case Nil
        with True Inl Cons.prems show ?thesis
          by (auto simp: Let_def handle_error_def list_pop0_def intro: exI [of _ 0])
      next
        case (Cons x xs)
        with True Inl Cons.prems
        have "retry_loop c rest conversation (?w1\<lparr>heap := (heap ?w1)(conversation := xs)\<rparr>) = (res, w')"
          by (simp add: Let_def handle_error_def list_pop0_def)
        from Cons.IH [OF this] obtain k cs where
          a: "next_free w' = next_free w \<and> ALL_MESSAGES w' = ALL_MESSAGES w \<and> files w' = files w \<and>
              stdin w' = stdin w \<and> (\<forall>a. a \<noteq> conversation \<longrightarrow> heap w' a = heap w a)"
          and k: "heap w' conversation = drop k xs"
          and cs: "calls w' = (calls w @ [?sent]) @ cs" "length cs \<le> length rest"
          by auto
        from k Cons have "heap w' conversation = drop (Suc k) ?sent" by simp
        with a cs show ?thesis by (auto)
      qed
    qed
  qed
qed

lemma exchange_frame:
  assumes "do_chatbot_conversation_exchange c conversation w = (res, w')"
  shows "next_free w' = next_free w" and "ALL_MESSAGES w' = ALL_MESSAGES w"
    and "files w' = files w" and "stdin w' = stdin w"
    and "a \<noteq> conversation \<Longrightarrow> heap w' a = heap w a"
    and "\<exists>cs. calls w' = calls w @ heap w conversation # cs"
proof -
  from assms have rl: "retry_loop c [0..<max_retry] conversation w = (res, w')"
    by (simp add: do_chatbot_conversation_exchange_def)
  note fr = retry_loop_frame [OF rl]
  from fr show "next_free w' = next_free w" and "ALL_MESSAGES w' = ALL_MESSAGES w"
    and "files w' = files w" and "stdin w' = stdin w" by simp_all
  from fr show "a \<noteq> conversation \<Longrightarrow> heap w' a = heap w a" by simp
  from fr obtain cs where cs: "calls w' = calls w @ cs" "cs \<noteq> []" "hd cs = heap w conversation"
    by (auto simp: range_max_retry)
  then obtain cs' where "cs = heap w conversation # cs'" by (cases cs) auto
  with cs show "\<exists>cs. calls w' = calls w @ heap w conversation # cs" by auto
qed

text \<open>
  The frame property depends on the envelope being an object of its own: were the
  exchange run on the history object itself, a context-length failure would shorten the
  history.
\<close>

lemma exchange_on_the_history_itself:
  "history (snd (do_chatbot_conversation_exchange (scripted [context_error] reply_ok)
                   (ALL_MESSAGES world0) world0)) = [msg ''assistant'' ''b'']"
  by (simp add: do_chatbot_conversation_exchange_def range_max_retry scripted_def
      context_error_def reply_ok_def response_ok_def world0_def attempt_def handle_error_def
      list_pop0_def msg_def)

section \<open>The trim after an exchange\<close>

text \<open>
  C4. For every non-empty history, the trim after an exchange removes exactly the message
  at index 0 when the reported token usage is strictly greater than the budget
  \<open>MODEL_MAX_TOKENS\<close>, and changes nothing otherwise; in both cases it ends normally.
\<close>

theorem trim_removes_oldest:
  assumes "history w = m # ms"
  shows "trim_if_over_budget tokens w =
           (Returned (), if tokens > MODEL_MAX_TOKENS
                         then w\<lparr>heap := (heap w)(ALL_MESSAGES w := ms)\<rparr> else w)"
  using assms by (simp add: trim_if_over_budget_def list_pop0_def)

theorem trim_removes_oldest_witness:
  "history world0 = msg ''user'' ''a'' # [msg ''assistant'' ''b''] \<and>
   trim_if_over_budget 7501 world0 =
     (Returned (), world0\<lparr>heap := (heap world0)(0 := [msg ''assistant'' ''b''])\<rparr>) \<and>
   trim_if_over_budget 7500 world0 = (Returned (), world0)"
proof -
  have h: "history world0 = msg ''user'' ''a'' # [msg ''assistant'' ''b'']"
    by (simp add: world0_def)
  from trim_removes_oldest [OF h, of 7501] trim_removes_oldest [OF h, of 7500] h
  show ?thesis by (simp add: MODEL_MAX_TOKENS_def world0_def)
qed


section \<open>The request envelope\<close>

lemma build_request_eq:
  assumes "ALL_MESSAGES w < next_free w"
  shows "build_request sm w =
           (next_free w,
            w\<lparr>heap := (heap w)(next_free w := history w @ [\<lparr>role = ''system'', content = sm\<rparr>]),
              next_free := Suc (next_free w)\<rparr>)"
  using assms by (simp add: build_request_def new_list_def list_extend_def list_append_def)

text \<open>
  C6. In a state where the history object has been allocated, building the request
  envelope leaves the history as it was (same length, same contents): the envelope is a
  new object, which holds the messages of the history followed by the system message. The
  exchange run on that envelope, whatever the client answers and however many messages the
  context-length retries remove from the envelope, leaves the history unchanged as well.
\<close>

theorem envelope_is_not_history:
  assumes "ALL_MESSAGES w < next_free w"
  shows "history (snd (build_request sm w)) = history w \<and>
         fst (build_request sm w) \<noteq> ALL_MESSAGES w \<and>
         heap (snd (build_request sm w)) (fst (build_request sm w)) =
           history w @ [\<lparr>role = ''system'', content = sm\<rparr>] \<and>
         history (snd (do_chatbot_conversation_exchange c (fst (build_request sm w))
                         (snd (build_request sm w)))) = history w"
proof -
  let ?conv = "next_free w"
  let ?w1 = "w\<lparr>heap := (heap w)(next_free w := history w @ [\<lparr>role = ''system'', content = sm\<rparr>]),
              next_free := Suc (next_free w)\<rparr>"
  have br: "build_request sm w = (?conv, ?w1)" using assms by (rule build_request_eq)
  from assms have ne: "ALL_MESSAGES w \<noteq> ?conv" by simp
  obtain res w' where ex: "do_chatbot_conversation_exchange c ?conv ?w1 = (res, w')"
    by (cases "do_chatbot_conversation_exchange c ?conv ?w1") auto
  from exchange_frame(2) [OF ex] exchange_frame(5) [OF ex, of "ALL_MESSAGES w"] ne
  have "history w' = history w" by simp
  with ne show ?thesis by (simp add: br ex)
qed

theorem envelope_is_not_history_witness:
  "ALL_MESSAGES world0 < next_free world0 \<and>
   history (snd (build_request ''S'' world0)) = history world0 \<and>
   fst (build_request ''S'' world0) \<noteq> ALL_MESSAGES world0 \<and>
   heap (snd (build_request ''S'' world0)) (fst (build_request ''S'' world0)) =
     history world0 @ [\<lparr>role = ''system'', content = ''S''\<rparr>] \<and>
   history (snd (do_chatbot_conversation_exchange (scripted [context_error] reply_ok)
                   (fst (build_request ''S'' world0)) (snd (build_request ''S'' world0)))) =
     history world0"
proof -
  have h: "ALL_MESSAGES world0 < next_free world0" by (simp add: world0_def)
  from h envelope_is_not_history [OF h, of "''S''" "scripted [context_error] reply_ok"]
  show ?thesis by blast
qed

section \<open>What the string functions compute\<close>

text \<open>\<open>contains\<close> is the substring test.\<close>

lemma contains_iff: "contains sub s \<longleftrightarrow> (\<exists>p q. s = p @ sub @ q)"
proof (induction s)
  case Nil
  show ?case by auto
next
  case (Cons c cs)
  show ?case
  proof
    assume "contains sub (c # cs)"
    then consider "prefix sub (c # cs)" | "contains sub cs" by auto
    then show "\<exists>p q. c # cs = p @ sub @ q"
    proof cases
      case 1
      then obtain q where "c # cs = sub @ q" by (auto simp: prefix_def)
      then have "c # cs = [] @ sub @ q" by simp
      then show ?thesis by blast
    next
      case 2
      with Cons.IH obtain p q where "cs = p @ sub @ q" by blast
      then have "c # cs = (c # p) @ sub @ q" by simp
      then show ?thesis by blast
    qed
  next
    assume "\<exists>p q. c # cs = p @ sub @ q"
    then obtain p q where pq: "c # cs = p @ sub @ q" by blast
    show "contains sub (c # cs)"
    proof (cases p)
      case Nil
      with pq have "prefix sub (c # cs)" by (simp add: prefix_def)
      then show ?thesis by simp
    next
      case (Cons a p')
      with pq have "cs = p' @ sub @ q" by simp
      with Cons.IH have "contains sub cs" by blast
      then show ?thesis by simp
    qed
  qed
qed

text \<open>
  \<open>replace\<close> leaves a text without occurrence of \<open>old\<close> as it is, and replaces the
  leftmost occurrence and then those of the rest: the two equations determine the result
  for every text.
\<close>

lemma replace_absent:
  "\<not> contains old s \<Longrightarrow> replace old new s = s"
  by (induction s) auto

lemma replace_first:
  assumes "old \<noteq> []" and "\<not> contains old (pre @ butlast old)"
  shows "replace old new (pre @ old @ post) = pre @ new @ replace old new post"
  using assms(2)
proof (induction pre)
  case Nil
  from assms(1) obtain a as where old: "old = a # as" by (cases old) auto
  then have "replace old new (old @ post) = new @ replace old new (drop (length old - 1) (as @ post))"
    by simp
  also have "drop (length old - 1) (as @ post) = post" using old by simp
  finally show ?case by simp
next
  case (Cons c pre)
  have np: "\<not> prefix old (c # pre @ old @ post)"
  proof
    assume "prefix old (c # pre @ old @ post)"
    then obtain q where q: "c # pre @ old @ post = old @ q" by (auto simp: prefix_def)
    have "length old \<le> length ((c # pre) @ butlast old)" using assms(1) by (cases old) auto
    moreover have "take (length old) ((c # pre) @ butlast old @ [last old] @ post) = old"
      using q assms(1) by (metis append.assoc append_Cons append_Nil append_butlast_last_id append_eq_conv_conj)
    ultimately have "take (length old) ((c # pre) @ butlast old) = old"
      by (metis append.assoc take_all_iff take_append diff_is_0_eq' take_0 append_Nil2 )
    then have "(c # pre) @ butlast old = old @ drop (length old) ((c # pre) @ butlast old)"
      by (metis append_take_drop_id)
    then have "contains old ((c # pre) @ butlast old)"
      unfolding contains_iff by (metis append_Nil)
    with Cons.prems show False by simp
  qed
  have "\<not> contains old (pre @ butlast old)" using Cons.prems by simp
  from Cons.IH [OF this] np show ?case by simp
qed

text \<open>
  \<open>universal_newlines\<close> changes nothing in a text without carriage return, leaves no
  carriage return, and reads a carriage return with the line feed that follows it, or a
  carriage return alone, as one line feed.
\<close>

lemma universal_newlines_without_CR:
  "CHR 0x0D \<notin> set s \<Longrightarrow> universal_newlines s = s"
  by (induction s rule: universal_newlines.induct) auto

lemma universal_newlines_no_CR:
  "CHR 0x0D \<notin> set (universal_newlines s)"
  by (induction s rule: universal_newlines.induct) auto

lemma universal_newlines_CRLF:
  "universal_newlines (a @ CHR 0x0D # CHR 0x0A # b) =
     universal_newlines a @ CHR 0x0A # universal_newlines b"
  by (induction a rule: universal_newlines.induct) auto

lemma universal_newlines_CR:
  "(\<And>b'. b \<noteq> CHR 0x0A # b') \<Longrightarrow>
   universal_newlines (a @ CHR 0x0D # b) = universal_newlines a @ CHR 0x0A # universal_newlines b"
  by (induction a rule: universal_newlines.induct) (cases b; auto)+

section \<open>User input\<close>

lemma get_user_input_frame:
  assumes "get_user_input w = (res, w1)"
  shows "heap w1 = heap w \<and> ALL_MESSAGES w1 = ALL_MESSAGES w \<and> next_free w1 = next_free w \<and>
         calls w1 = calls w \<and> sleeps w1 = sleeps w"
  using assms
  by (auto simp: get_user_input_def multi_line_input_def save_file_def Let_def
      split: list.splits if_splits prod.splits result.splits)

lemma get_user_input_text:
  assumes "stdin w = text # rest" and "text \<noteq> ''END''" and "text \<noteq> ''SCRATCHPAD''"
    and "text \<noteq> ''M''"
  shows "get_user_input w = (Returned (Some text), w\<lparr>stdin := rest\<rparr>)"
  using assms by (auto simp: get_user_input_def)

lemma get_user_input_END:
  "stdin w = ''END'' # rest \<Longrightarrow> get_user_input w = (Exited 0, w\<lparr>stdin := rest\<rparr>)"
  by (simp add: get_user_input_def)


text \<open>
  C9. When the user enters \<^verbatim>\<open>M\<close> at the main prompt, then the lines \<^verbatim>\<open>foo\<close> and
  \<^verbatim>\<open>bar\<close>, then \<^verbatim>\<open>END\<close>, the pass through the loop body ends normally, the content of
  the scratchpad file has become the two lines joined by a line feed, and nothing else has
  changed but the input consumed: in particular no call of the client has been recorded.
\<close>

theorem scratchpad_entry_scenario:
  "main_iteration c (w\<lparr>stdin := ''M'' # ''foo'' # ''bar'' # ''END'' # rest\<rparr>) =
     (Returned (), w\<lparr>stdin := rest, files := (files w)(''scratchpad.txt'' \<mapsto> ''foo\<newline>bar'')\<rparr>)"
  by (simp add: main_iteration_def get_user_input_def multi_line_input_def save_file_def
      strip_def strip_chars_def whitespace_def)


theorem scratchpad_entry_scenario_witness:
  "main_iteration (scripted [] reply_ok) (world0\<lparr>stdin := [''M'', ''foo'', ''bar'', ''END'']\<rparr>) =
     (Returned (), world0\<lparr>stdin := [], files := (files world0)(''scratchpad.txt'' \<mapsto> ''foo\<newline>bar'')\<rparr>) \<and>
   calls (snd (main_iteration (scripted [] reply_ok)
                 (world0\<lparr>stdin := [''M'', ''foo'', ''bar'', ''END'']\<rparr>))) = []"
  using scratchpad_entry_scenario [where c = "scripted [] reply_ok" and w = world0 and rest = "[]"]
  by (simp add: world0_def)



lemma dropWhile_all: "set p \<subseteq> {x. P x} \<Longrightarrow> dropWhile P (p @ xs) = dropWhile P xs"
  by (induction p) auto

text \<open>The three properties of the two lemmas above determine the result.\<close>

lemma strip_chars_unique:
  assumes s: "s = p @ m @ q" and p: "set p \<subseteq> set chars" and q: "set q \<subseteq> set chars"
    and m: "m = [] \<or> (hd m \<notin> set chars \<and> last m \<notin> set chars)"
  shows "strip_chars chars s = m"
proof -
  let ?P = "\<lambda>c. c \<in> set chars"
  have pP: "set p \<subseteq> {x. ?P x}" and qP: "set (rev q) \<subseteq> {x. ?P x}" using p q by auto
  show ?thesis
  proof (cases "m = []")
    case True
    have "dropWhile ?P s = dropWhile ?P q" unfolding s True using dropWhile_all [OF pP] by simp
    also have "\<dots> = []" using q by auto
    finally have d: "dropWhile ?P s = []" .
    show ?thesis unfolding strip_chars_def d True by simp
  next
    case False
    with m have hm: "\<not> ?P (hd m)" and lm: "\<not> ?P (last m)" by auto
    have "dropWhile ?P s = dropWhile ?P (m @ q)"
      unfolding s using dropWhile_all [OF pP] by simp
    also have "\<dots> = m @ q" using False hm by (cases m) auto
    finally have d: "dropWhile ?P s = m @ q" .
    have "dropWhile ?P (rev (m @ q)) = dropWhile ?P (rev q @ rev m)" by simp
    also have "\<dots> = dropWhile ?P (rev m)" using dropWhile_all [OF qP] by simp
    also have "\<dots> = rev m" using False lm by (cases "rev m") (auto simp: last_rev hd_rev)
    finally have e: "dropWhile ?P (rev (m @ q)) = rev m" .
    show ?thesis unfolding strip_chars_def d e by simp
  qed
qed





section \<open>The loop body\<close>

text \<open>What the loop body does once a non-empty line of text has been read.\<close>

definition after_input :: "client \<Rightarrow> string \<Rightarrow> world \<Rightarrow> unit result \<times> world" where
  "after_input c text w1 =
     (let w2 = list_append (ALL_MESSAGES w1) \<lparr>role = ''user'', content = text\<rparr> w1
      in case open_file ''system_message.txt'' w2 of
           Exited n \<Rightarrow> (Exited n, w2)
         | Raised e \<Rightarrow> (Raised e, w2)
         | Returned template \<Rightarrow>
             (case open_file ''scratchpad.txt'' w2 of
                Exited n \<Rightarrow> (Exited n, w2)
              | Raised e \<Rightarrow> (Raised e, w2)
              | Returned scratchpad \<Rightarrow>
                  (let system_message = replace ''<<CODE>>'' scratchpad template;
                       (conversation, w3) = build_request system_message w2
                   in case do_chatbot_conversation_exchange c conversation w3 of
                        (Exited n, w4) \<Rightarrow> (Exited n, w4)
                      | (Raised e, w4) \<Rightarrow> (Raised e, w4)
                      | (Returned (response, tokens, processing_time), w4) \<Rightarrow>
                          (case trim_if_over_budget tokens w4 of
                             (Exited n, w5) \<Rightarrow> (Exited n, w5)
                           | (Raised e, w5) \<Rightarrow> (Raised e, w5)
                           | (Returned u, w5) \<Rightarrow>
                               (Returned (),
                                list_append (ALL_MESSAGES w5)
                                  \<lparr>role = ''assistant'', content = response\<rparr> w5)))))"

lemma main_iteration_after_input:
  "main_iteration c w =
     (case get_user_input w of
        (Exited n, w1) \<Rightarrow> (Exited n, w1)
      | (Raised e, w1) \<Rightarrow> (Raised e, w1)
      | (Returned None, w1) \<Rightarrow> (Returned (), w1)
      | (Returned (Some text), w1) \<Rightarrow>
          if text = [] then (Returned (), w1) else after_input c text w1)"
  unfolding main_iteration_def after_input_def
  by (simp split: prod.split result.split option.split)

lemma sends_first: "sends c n E es \<Longrightarrow> \<exists>es'. es = E # es'"
  by (induction rule: sends.induct) auto

lemma retry_loop_sends:
  "\<exists>es. calls (snd (retry_loop c rs conversation w)) = calls w @ es \<and> length es \<le> length rs \<and>
        (rs \<noteq> [] \<longrightarrow> sends c (length (calls w)) (heap w conversation) es)"
proof (induction rs arbitrary: w)
  case Nil
  show ?case by simp
next
  case (Cons retry rest)
  let ?E = "heap w conversation"
  let ?n = "length (calls w)"
  let ?w1 = "w\<lparr>calls := calls w @ [?E]\<rparr>"
  have one: "calls w @ [?E] = calls w @ [?E] \<and> length [?E] \<le> length (retry # rest) \<and>
             sends c ?n ?E [?E]" by (simp add: last_call)
  show ?case
  proof (cases "attempt c ?n ?E")
    case (Inr ok)
    then have "calls (snd (retry_loop c (retry # rest) conversation w)) = calls w @ [?E]"
      by (simp add: Let_def)
    with one show ?thesis by (metis)
  next
    case (Inl e)
    show ?thesis
    proof (cases "contains ''maximum context length'' e")
      case False
      let ?w2 = "?w1\<lparr>sleeps := sleeps ?w1 @ [2 ^ retry * 5]\<rparr>"
      from False Inl have step: "retry_loop c (retry # rest) conversation w = retry_loop c rest conversation ?w2"
        by (simp add: Let_def handle_error_def)
      from Cons.IH [of ?w2] obtain es where
        es: "calls (snd (retry_loop c rest conversation ?w2)) = calls ?w2 @ es" "length es \<le> length rest"
          "rest \<noteq> [] \<longrightarrow> sends c (length (calls ?w2)) (heap ?w2 conversation) es"
        by blast
      show ?thesis
      proof (cases "rest = []")
        case True
        with es have "es = []" by simp
        with es(1) step have "calls (snd (retry_loop c (retry # rest) conversation w)) = calls w @ [?E]"
          by simp
        with one show ?thesis by metis
      next
        case nonempty: False
        with es(3) have "sends c (Suc ?n) ?E es" by simp
        with Inl False have "sends c ?n ?E (?E # es)" by (rule after_other_failure)
        moreover from es(1) step
        have "calls (snd (retry_loop c (retry # rest) conversation w)) = calls w @ ?E # es" by simp
        moreover from es(2) have "length (?E # es) \<le> length (retry # rest)" by simp
        ultimately show ?thesis by blast
      qed
    next
      case True
      show ?thesis
      proof (cases ?E)
        case Nil
        with True Inl have "calls (snd (retry_loop c (retry # rest) conversation w)) = calls w @ [?E]"
          by (simp add: Let_def handle_error_def list_pop0_def)
        with one show ?thesis by metis
      next
        case (Cons x xs)
        let ?w2 = "?w1\<lparr>heap := (heap ?w1)(conversation := xs)\<rparr>"
        from True Inl Cons
        have step: "retry_loop c (retry # rest) conversation w = retry_loop c rest conversation ?w2"
          by (simp add: Let_def handle_error_def list_pop0_def)
        from Cons.IH [of ?w2] obtain es where
          es: "calls (snd (retry_loop c rest conversation ?w2)) = calls ?w2 @ es" "length es \<le> length rest"
            "rest \<noteq> [] \<longrightarrow> sends c (length (calls ?w2)) (heap ?w2 conversation) es"
          by blast
        show ?thesis
        proof (cases "rest = []")
          case True
          with es have "es = []" by simp
          with es(1) step have "calls (snd (retry_loop c (retry # rest) conversation w)) = calls w @ [?E]"
            by simp
          with one show ?thesis by metis
        next
          case nonempty: False
          with es(3) have "sends c (Suc ?n) xs es" by simp
          moreover from Inl Cons have "attempt c ?n (x # xs) = Inl e" by simp
          ultimately have "sends c ?n (x # xs) ((x # xs) # es)"
            using True by (intro after_context_failure)
          then have "sends c ?n ?E (?E # es)" using Cons by simp
          moreover from es(1) step
          have "calls (snd (retry_loop c (retry # rest) conversation w)) = calls w @ ?E # es" by simp
          moreover from es(2) have "length (?E # es) \<le> length (retry # rest)" by simp
          ultimately show ?thesis by blast
        qed
      qed
    qed
  qed
qed

lemma exchange_sends:
  "\<exists>es. calls (snd (do_chatbot_conversation_exchange c conversation w)) =
          calls w @ heap w conversation # es \<and> length es < 7 \<and>
        sends c (length (calls w)) (heap w conversation) (heap w conversation # es)"
proof -
  from retry_loop_sends [of c "[0..<max_retry]" conversation w] obtain es where
    es: "calls (snd (retry_loop c [0..<max_retry] conversation w)) = calls w @ es"
      "length es \<le> length [0..<max_retry]"
      "sends c (length (calls w)) (heap w conversation) es"
    by (auto simp: range_max_retry)
  from sends_first [OF es(3)] obtain es' where "es = heap w conversation # es'" by blast
  with es show ?thesis
    by (auto simp: do_chatbot_conversation_exchange_def max_retry_def)
qed

lemma after_input_sends:
  assumes "ALL_MESSAGES w1 < next_free w1"
    and "files w1 ''system_message.txt'' = Some template"
    and "files w1 ''scratchpad.txt'' = Some scratchpad"
  shows "\<exists>es. calls (snd (after_input c line w1)) =
           calls w1 @
           (history w1 @ [\<lparr>role = ''user'', content = line\<rparr>,
                          \<lparr>role = ''system'',
                            content = replace ''<<CODE>>'' (universal_newlines scratchpad)
                                        (universal_newlines template)\<rparr>]) # es \<and>
           length es < 7 \<and>
           sends c (length (calls w1))
             (history w1 @ [\<lparr>role = ''user'', content = line\<rparr>,
                          \<lparr>role = ''system'',
                            content = replace ''<<CODE>>'' (universal_newlines scratchpad)
                                        (universal_newlines template)\<rparr>])
             ((history w1 @ [\<lparr>role = ''user'', content = line\<rparr>,
                          \<lparr>role = ''system'',
                            content = replace ''<<CODE>>'' (universal_newlines scratchpad)
                                        (universal_newlines template)\<rparr>]) # es)"
proof -
  let ?w2 = "list_append (ALL_MESSAGES w1) \<lparr>role = ''user'', content = line\<rparr> w1"
  let ?sm = "replace ''<<CODE>>'' (universal_newlines scratchpad) (universal_newlines template)"
  have inv: "ALL_MESSAGES ?w2 < next_free ?w2" using assms(1) by (simp add: list_append_def)
  have h2: "history ?w2 = history w1 @ [\<lparr>role = ''user'', content = line\<rparr>]"
    by (simp add: list_append_def)
  let ?conv = "next_free ?w2"
  let ?w3 = "?w2\<lparr>heap := (heap ?w2)(next_free ?w2 := history ?w2 @ [\<lparr>role = ''system'', content = ?sm\<rparr>]),
              next_free := Suc (next_free ?w2)\<rparr>"
  let ?E = "history w1 @ [\<lparr>role = ''user'', content = line\<rparr>, \<lparr>role = ''system'', content = ?sm\<rparr>]"
  have br: "build_request ?sm ?w2 = (?conv, ?w3)" using inv by (rule build_request_eq)
  obtain res w4 where ex: "do_chatbot_conversation_exchange c ?conv ?w3 = (res, w4)"
    by (cases "do_chatbot_conversation_exchange c ?conv ?w3") auto
  have c3: "calls ?w3 = calls w1" by (simp add: list_append_def)
  have e3: "heap ?w3 ?conv = ?E" using h2 by simp
  from exchange_sends [of c ?conv ?w3] obtain es where
    "calls (snd (do_chatbot_conversation_exchange c ?conv ?w3)) = calls ?w3 @ heap ?w3 ?conv # es"
    "length es < 7"
    "sends c (length (calls ?w3)) (heap ?w3 ?conv) (heap ?w3 ?conv # es)"
    by blast
  then have es: "calls w4 = calls w1 @ ?E # es" "length es < 7"
    "sends c (length (calls w1)) ?E (?E # es)"
    unfolding ex c3 e3 by simp_all
  have "calls (snd (after_input c line w1)) = calls w4"
    using assms(2,3) br ex
    by (auto simp: after_input_def open_file_def list_append_def trim_if_over_budget_def
        list_pop0_def Let_def split: result.splits prod.splits list.splits)
  with es show ?thesis by auto
qed

text \<open>
  C7, as the code has it. When the user enters a line of text (not a keyword, not empty)
  and both files can be read, the first envelope transmitted in the exchange is the
  history, which by then ends with the user's message, followed by exactly one system
  message; its content is the template with every \<^verbatim>\<open><<CODE>>\<close> replaced by the scratchpad,
  both as \<^verbatim>\<open>open_file\<close> reads them (line endings translated). For a template with one
  placeholder that content is what stands before the placeholder, the scratchpad, and
  what stands after it; for a template without placeholder it is the template. At most 6
  more envelopes are transmitted in the exchange, each of them the one before it, or,
  after a context-length failure, the one before it without its first message. The
  witness holds a session whose files have carriage returns, and the scenario of the
  specification.
\<close>

theorem envelope_sent:
  assumes "stdin w = text # rest"
    and "text \<noteq> ''END''" and "text \<noteq> ''SCRATCHPAD''" and "text \<noteq> ''M''" and "text \<noteq> []"
    and "files w ''system_message.txt'' = Some template"
    and "files w ''scratchpad.txt'' = Some scratchpad"
    and "ALL_MESSAGES w < next_free w"
  shows "(\<exists>es. calls (snd (main_iteration c w)) =
            calls w @
            (history w @ [\<lparr>role = ''user'', content = text\<rparr>,
                          \<lparr>role = ''system'',
                            content = replace ''<<CODE>>'' (universal_newlines scratchpad)
                                        (universal_newlines template)\<rparr>]) # es \<and>
            length es < 7 \<and>
            sends c (length (calls w))
              (history w @ [\<lparr>role = ''user'', content = text\<rparr>,
                            \<lparr>role = ''system'',
                              content = replace ''<<CODE>>'' (universal_newlines scratchpad)
                                          (universal_newlines template)\<rparr>])
              ((history w @ [\<lparr>role = ''user'', content = text\<rparr>,
                             \<lparr>role = ''system'',
                               content = replace ''<<CODE>>'' (universal_newlines scratchpad)
                                           (universal_newlines template)\<rparr>]) # es)) \<and>
         (\<forall>pre post.
            universal_newlines template = pre @ ''<<CODE>>'' @ post \<longrightarrow>
            \<not> contains ''<<CODE>>'' (pre @ ''<<CODE>'') \<longrightarrow> \<not> contains ''<<CODE>>'' post \<longrightarrow>
            replace ''<<CODE>>'' (universal_newlines scratchpad) (universal_newlines template) =
              pre @ universal_newlines scratchpad @ post) \<and>
         (\<not> contains ''<<CODE>>'' (universal_newlines template) \<longrightarrow>
            replace ''<<CODE>>'' (universal_newlines scratchpad) (universal_newlines template) =
              universal_newlines template)"
proof -
  let ?w1 = "w\<lparr>stdin := rest\<rparr>"
  have mi: "main_iteration c w = after_input c text ?w1"
    using assms(5) by (simp add: main_iteration_after_input get_user_input_text [OF assms(1-4)])
  have 1: "ALL_MESSAGES ?w1 < next_free ?w1" using assms(8) by simp
  have 2: "files ?w1 ''system_message.txt'' = Some template" using assms(6) by simp
  have 3: "files ?w1 ''scratchpad.txt'' = Some scratchpad" using assms(7) by simp
  from after_input_sends [OF 1 2 3, of c "text"]
  have A: "\<exists>es. calls (snd (main_iteration c w)) =
            calls w @
            (history w @ [\<lparr>role = ''user'', content = text\<rparr>,
                          \<lparr>role = ''system'',
                            content = replace ''<<CODE>>'' (universal_newlines scratchpad)
                                        (universal_newlines template)\<rparr>]) # es \<and>
            length es < 7 \<and>
            sends c (length (calls w))
              (history w @ [\<lparr>role = ''user'', content = text\<rparr>,
                            \<lparr>role = ''system'',
                              content = replace ''<<CODE>>'' (universal_newlines scratchpad)
                                          (universal_newlines template)\<rparr>])
              ((history w @ [\<lparr>role = ''user'', content = text\<rparr>,
                             \<lparr>role = ''system'',
                               content = replace ''<<CODE>>'' (universal_newlines scratchpad)
                                           (universal_newlines template)\<rparr>]) # es)"
    unfolding mi by simp
  have B: "\<forall>pre post.
            universal_newlines template = pre @ ''<<CODE>>'' @ post \<longrightarrow>
            \<not> contains ''<<CODE>>'' (pre @ ''<<CODE>'') \<longrightarrow> \<not> contains ''<<CODE>>'' post \<longrightarrow>
            replace ''<<CODE>>'' (universal_newlines scratchpad) (universal_newlines template) =
              pre @ universal_newlines scratchpad @ post"
  proof (intro allI impI)
    fix pre post
    assume t: "universal_newlines template = pre @ ''<<CODE>>'' @ post"
      and a: "\<not> contains ''<<CODE>>'' (pre @ ''<<CODE>'')" and b: "\<not> contains ''<<CODE>>'' post"
    have "\<not> contains ''<<CODE>>'' (pre @ butlast ''<<CODE>>'')" using a by simp
    then have "replace ''<<CODE>>'' (universal_newlines scratchpad) (pre @ ''<<CODE>>'' @ post) =
          pre @ universal_newlines scratchpad @ replace ''<<CODE>>'' (universal_newlines scratchpad) post"
      by (intro replace_first) simp_all
    also have "replace ''<<CODE>>'' (universal_newlines scratchpad) post = post"
      using b by (rule replace_absent)
    finally show "replace ''<<CODE>>'' (universal_newlines scratchpad) (universal_newlines template) =
              pre @ universal_newlines scratchpad @ post"
      unfolding t .
  qed
  have C: "\<not> contains ''<<CODE>>'' (universal_newlines template) \<longrightarrow>
            replace ''<<CODE>>'' (universal_newlines scratchpad) (universal_newlines template) =
              universal_newlines template"
    by (simp add: replace_absent)
  from A B C show ?thesis by blast
qed

theorem envelope_sent_witness:
  "stdin world_crlf = ''hi'' # [] \<and> ''hi'' \<noteq> ''END'' \<and> ''hi'' \<noteq> ''SCRATCHPAD'' \<and>
   ''hi'' \<noteq> ''M'' \<and> ''hi'' \<noteq> [] \<and>
   files world_crlf ''system_message.txt'' = Some (''Code:'' @ [CHR 0x0D] @ ''<<CODE>> end'') \<and>
   files world_crlf ''scratchpad.txt'' = Some (''x'' @ [CHR 0x0D, CHR 0x0A] @ ''y'') \<and>
   ALL_MESSAGES world_crlf < next_free world_crlf \<and>
   (\<exists>es. calls (snd (main_iteration (scripted [context_error] reply_ok) world_crlf)) =
           [msg ''user'' ''hi'', msg ''system'' ''Code:\<newline>x\<newline>y end''] # es \<and>
         length es < 7 \<and>
         sends (scripted [context_error] reply_ok) 0
           [msg ''user'' ''hi'', msg ''system'' ''Code:\<newline>x\<newline>y end'']
           ([msg ''user'' ''hi'', msg ''system'' ''Code:\<newline>x\<newline>y end''] # es)) \<and>
   stdin world_fresh = ''hi'' # [] \<and>
   files world_fresh ''system_message.txt'' = Some ''You are helpful. <<CODE>>'' \<and>
   files world_fresh ''scratchpad.txt'' = Some [] \<and>
   ALL_MESSAGES world_fresh < next_free world_fresh \<and>
   history world_fresh = [] \<and>
   (\<exists>es. calls (snd (main_iteration (scripted [] reply_ok) world_fresh)) =
           [msg ''user'' ''hi'', msg ''system'' ''You are helpful. ''] # es)"
proof -
  have h1: "stdin world_crlf = ''hi'' # []" by (simp add: world_crlf_def world_fresh_def)
  have h2: "''hi'' \<noteq> ''END''" and h3: "''hi'' \<noteq> ''SCRATCHPAD''" and h4: "''hi'' \<noteq> ''M''"
    and h5: "''hi'' \<noteq> []" by simp_all
  have h6: "files world_crlf ''system_message.txt'' = Some (''Code:'' @ [CHR 0x0D] @ ''<<CODE>> end'')"
    by (simp add: world_crlf_def)
  have h7: "files world_crlf ''scratchpad.txt'' = Some (''x'' @ [CHR 0x0D, CHR 0x0A] @ ''y'')"
    by (simp add: world_crlf_def)
  have h8: "ALL_MESSAGES world_crlf < next_free world_crlf"
    by (simp add: world_crlf_def world_fresh_def world0_def)
  have h9: "history world_crlf = []" "calls world_crlf = []"
    by (simp_all add: world_crlf_def world_fresh_def world0_def)
  have r: "replace ''<<CODE>>'' (universal_newlines (''x'' @ [CHR 0x0D, CHR 0x0A] @ ''y''))
             (universal_newlines (''Code:'' @ [CHR 0x0D] @ ''<<CODE>> end'')) =
           ''Code:\<newline>x\<newline>y end''"
    by simp
  from envelope_sent [OF h1 h2 h3 h4 h5 h6 h7 h8, of "scripted [context_error] reply_ok"]
  have A: "\<exists>es. calls (snd (main_iteration (scripted [context_error] reply_ok) world_crlf)) =
           [msg ''user'' ''hi'', msg ''system'' ''Code:\<newline>x\<newline>y end''] # es \<and>
         length es < 7 \<and>
         sends (scripted [context_error] reply_ok) 0
           [msg ''user'' ''hi'', msg ''system'' ''Code:\<newline>x\<newline>y end'']
           ([msg ''user'' ''hi'', msg ''system'' ''Code:\<newline>x\<newline>y end''] # es)"
    unfolding h9 r msg_def by simp
  have g1: "stdin world_fresh = ''hi'' # []" by (simp add: world_fresh_def)
  have g6: "files world_fresh ''system_message.txt'' = Some ''You are helpful. <<CODE>>''"
    by (simp add: world_fresh_def world0_def)
  have g7: "files world_fresh ''scratchpad.txt'' = Some []"
    by (simp add: world_fresh_def world0_def)
  have g8: "ALL_MESSAGES world_fresh < next_free world_fresh"
    by (simp add: world_fresh_def world0_def)
  have g9: "history world_fresh = []" "calls world_fresh = []"
    by (simp_all add: world_fresh_def world0_def)
  have r': "replace ''<<CODE>>'' (universal_newlines []) (universal_newlines ''You are helpful. <<CODE>>'') =
            ''You are helpful. ''"
    by simp
  from envelope_sent [OF g1 h2 h3 h4 h5 g6 g7 g8, of "scripted [] reply_ok"]
  have "\<exists>es. calls (snd (main_iteration (scripted [] reply_ok) world_fresh)) =
           [msg ''user'' ''hi'', msg ''system'' ''You are helpful. ''] # es \<and>
         length es < 7 \<and>
         sends (scripted [] reply_ok) 0
           [msg ''user'' ''hi'', msg ''system'' ''You are helpful. '']
           ([msg ''user'' ''hi'', msg ''system'' ''You are helpful. ''] # es)"
    unfolding g9 r' msg_def by simp
  then have B: "\<exists>es. calls (snd (main_iteration (scripted [] reply_ok) world_fresh)) =
           [msg ''user'' ''hi'', msg ''system'' ''You are helpful. ''] # es"
    by blast
  from h1 h2 h3 h4 h5 h6 h7 h8 A g1 g6 g7 g8 g9(1) B show ?thesis by blast
qed

text \<open>
  The claim as stated fails. After one context-length failure the second envelope
  transmitted holds the system message alone, not the history followed by it. And for a
  scratchpad file that holds a carriage return and a line feed between \<^verbatim>\<open>x\<close> and \<^verbatim>\<open>y\<close>, and
  a template with a lone carriage return, the system message has one line feed in each
  place, not the content of the files.
\<close>

theorem envelope_sent_counterexample:
  "calls (snd (main_iteration (scripted [context_error] reply_ok) world_fresh)) =
     [[msg ''user'' ''hi'', msg ''system'' ''You are helpful. ''],
      [msg ''system'' ''You are helpful. '']] \<and>
   files world_crlf ''scratchpad.txt'' = Some (''x'' @ [CHR 0x0D, CHR 0x0A] @ ''y'') \<and>
   calls (snd (main_iteration (scripted [] reply_ok) world_crlf)) =
     [[msg ''user'' ''hi'', msg ''system'' (''Code:\<newline>x\<newline>y end'')]]"
  by (simp add: main_iteration_def get_user_input_def list_append_def open_file_def
      build_request_def new_list_def list_extend_def do_chatbot_conversation_exchange_def
      range_max_retry attempt_def handle_error_def scripted_def reply_ok_def response_ok_def
      context_error_def trim_if_over_budget_def MODEL_MAX_TOKENS_def list_pop0_def
      world_crlf_def world_fresh_def world0_def msg_def Let_def)

lemma after_input_history:
  assumes inv: "ALL_MESSAGES w1 < next_free w1" and run: "after_input c text w1 = (res, w')"
  shows "ALL_MESSAGES w' = ALL_MESSAGES w1 \<and> ALL_MESSAGES w' < next_free w' \<and>
         (history w' = history w1 @ [\<lparr>role = ''user'', content = text\<rparr>] \<or>
          (\<exists>response.
             history w' = history w1 @ [\<lparr>role = ''user'', content = text\<rparr>,
                                        \<lparr>role = ''assistant'', content = response\<rparr>] \<or>
             history w' = tl (history w1 @ [\<lparr>role = ''user'', content = text\<rparr>]) @
                          [\<lparr>role = ''assistant'', content = response\<rparr>]))"
proof -
  let ?u = "\<lparr>role = ''user'', content = text\<rparr>"
  let ?w2 = "list_append (ALL_MESSAGES w1) ?u w1"
  have inv2: "ALL_MESSAGES ?w2 < next_free ?w2" using inv by (simp add: list_append_def)
  have a2: "ALL_MESSAGES ?w2 = ALL_MESSAGES w1" by (simp add: list_append_def)
  have h2: "history ?w2 = history w1 @ [?u]" by (simp add: list_append_def)
  show ?thesis
  proof (cases "\<exists>template scratchpad. files w1 ''system_message.txt'' = Some template \<and>
                  files w1 ''scratchpad.txt'' = Some scratchpad")
    case False
    then have "after_input c text w1 = (Raised FileNotFoundError, ?w2)"
      by (auto simp: after_input_def open_file_def list_append_def Let_def split: option.splits)
    with run have "w' = ?w2" by simp
    with inv2 a2 h2 show ?thesis by simp
  next
    case True
    then obtain template scratchpad where
      f: "files w1 ''system_message.txt'' = Some template" "files w1 ''scratchpad.txt'' = Some scratchpad"
      by blast
    let ?sm = "replace ''<<CODE>>'' (universal_newlines scratchpad) (universal_newlines template)"
    let ?conv = "next_free ?w2"
    let ?w3 = "?w2\<lparr>heap := (heap ?w2)(next_free ?w2 := history ?w2 @ [\<lparr>role = ''system'', content = ?sm\<rparr>]),
                next_free := Suc (next_free ?w2)\<rparr>"
    have br: "build_request ?sm ?w2 = (?conv, ?w3)" using inv2 by (rule build_request_eq)
    obtain res4 w4 where ex: "do_chatbot_conversation_exchange c ?conv ?w3 = (res4, w4)"
      by (cases "do_chatbot_conversation_exchange c ?conv ?w3") auto
    from inv2 have ne: "ALL_MESSAGES ?w2 \<noteq> ?conv" by simp
    have a4: "ALL_MESSAGES w4 = ALL_MESSAGES w1"
      using exchange_frame(2) [OF ex] a2 by simp
    have n4: "ALL_MESSAGES w4 < next_free w4"
      using exchange_frame(1) [OF ex] a4 inv2 a2 by simp
    have "heap w4 (ALL_MESSAGES ?w2) = heap ?w3 (ALL_MESSAGES ?w2)"
      using ne by (intro exchange_frame(5) [OF ex]) simp
    then have h4: "history w4 = history w1 @ [?u]"
      using ne a4 a2 h2 by simp
    have ai: "after_input c text w1 =
            (case res4 of
               Exited n \<Rightarrow> (Exited n, w4)
             | Raised e \<Rightarrow> (Raised e, w4)
             | Returned (response, tokens, processing_time) \<Rightarrow>
                 (case trim_if_over_budget tokens w4 of
                    (Exited n, w5) \<Rightarrow> (Exited n, w5)
                  | (Raised e, w5) \<Rightarrow> (Raised e, w5)
                  | (Returned u, w5) \<Rightarrow>
                      (Returned (),
                       list_append (ALL_MESSAGES w5) \<lparr>role = ''assistant'', content = response\<rparr> w5)))"
      using f br ex
      by (simp add: after_input_def open_file_def list_append_def Let_def split: result.split)
    show ?thesis
    proof (cases res4)
      case (Exited n)
      with ai run have "w' = w4" by simp
      with a4 n4 h4 show ?thesis by simp
    next
      case (Raised e)
      with ai run have "w' = w4" by simp
      with a4 n4 h4 show ?thesis by simp
    next
      case (Returned x)
      obtain response tokens processing_time where x: "x = (response, tokens, processing_time)"
        by (cases x) auto
      obtain m ms where hm: "history w4 = m # ms" "m # ms = history w1 @ [?u]"
        using h4 by (cases "history w4") auto
      let ?w5 = "if tokens > MODEL_MAX_TOKENS then w4\<lparr>heap := (heap w4)(ALL_MESSAGES w4 := ms)\<rparr> else w4"
      have tr: "trim_if_over_budget tokens w4 = (Returned (), ?w5)"
        using hm(1) by (simp add: trim_if_over_budget_def list_pop0_def)
      from ai run Returned x tr
      have w': "w' = list_append (ALL_MESSAGES ?w5) \<lparr>role = ''assistant'', content = response\<rparr> ?w5"
        by simp
      have ms: "ms = tl (history w1 @ [?u])" using hm(2) by (metis list.sel(3))
      show ?thesis
      proof (cases "tokens > MODEL_MAX_TOKENS")
        case True
        with w' a4 n4 hm ms show ?thesis by (auto simp: list_append_def)
      next
        case False
        with w' a4 n4 h4 show ?thesis by (auto simp: list_append_def)
      qed
    qed
  qed
qed

lemma mutation_cases:
  "mutation\<^sup>*\<^sup>* h (h @ [u])"
  "mutation\<^sup>*\<^sup>* h (h @ [u, a])"
  "mutation\<^sup>*\<^sup>* h (tl (h @ [u]) @ [a])"
proof -
  show 1: "mutation\<^sup>*\<^sup>* h (h @ [u])" by (rule r_into_rtranclp) (rule append_one)
  have "mutation (h @ [u]) ((h @ [u]) @ [a])" by (rule append_one)
  with 1 show "mutation\<^sup>*\<^sup>* h (h @ [u, a])" by (simp add: rtranclp.rtrancl_into_rtrancl)
  obtain x xs where x: "h @ [u] = x # xs" by (cases "h @ [u]") auto
  have "mutation (x # xs) xs" by (rule remove_first)
  moreover have "mutation xs (xs @ [a])" by (rule append_one)
  ultimately have "mutation\<^sup>*\<^sup>* (h @ [u]) (tl (h @ [u]) @ [a])"
    using x by (simp add: rtranclp.rtrancl_into_rtrancl r_into_rtranclp)
  with 1 show "mutation\<^sup>*\<^sup>* h (tl (h @ [u]) @ [a])" by (rule rtranclp_trans)
qed

lemma main_iteration_history:
  assumes "ALL_MESSAGES w < next_free w" and "main_iteration c w = (res, w')"
  shows "ALL_MESSAGES w' = ALL_MESSAGES w \<and> ALL_MESSAGES w' < next_free w' \<and>
         (history w' = history w \<or>
          (\<exists>text. history w' = history w @ [\<lparr>role = ''user'', content = text\<rparr>]) \<or>
          (\<exists>text response.
             history w' = history w @ [\<lparr>role = ''user'', content = text\<rparr>,
                                       \<lparr>role = ''assistant'', content = response\<rparr>]) \<or>
          (\<exists>text response.
             history w' = tl (history w @ [\<lparr>role = ''user'', content = text\<rparr>]) @
                          [\<lparr>role = ''assistant'', content = response\<rparr>])) \<and>
         mutation\<^sup>*\<^sup>* (history w) (history w')"
proof -
  obtain r1 w1 where gi: "get_user_input w = (r1, w1)" by (cases "get_user_input w") auto
  from get_user_input_frame [OF gi]
  have fr: "heap w1 = heap w" "ALL_MESSAGES w1 = ALL_MESSAGES w" "next_free w1 = next_free w"
    by simp_all
  show ?thesis
  proof (cases "\<exists>text. r1 = Returned (Some text) \<and> text \<noteq> []")
    case False
    with gi assms(2) have "w' = w1"
      by (auto simp: main_iteration_after_input split: result.splits option.splits if_splits)
    with fr assms(1) show ?thesis by simp
  next
    case True
    then obtain line where t: "r1 = Returned (Some line)" "line \<noteq> []" by blast
    with gi assms(2) have ai: "after_input c line w1 = (res, w')"
      by (simp add: main_iteration_after_input)
    have inv1: "ALL_MESSAGES w1 < next_free w1" using fr assms(1) by simp
    have *: "ALL_MESSAGES w' = ALL_MESSAGES w \<and> ALL_MESSAGES w' < next_free w' \<and>
         (history w' = history w @ [\<lparr>role = ''user'', content = line\<rparr>] \<or>
          (\<exists>response.
             history w' = history w @ [\<lparr>role = ''user'', content = line\<rparr>,
                                        \<lparr>role = ''assistant'', content = response\<rparr>] \<or>
             history w' = tl (history w @ [\<lparr>role = ''user'', content = line\<rparr>]) @
                          [\<lparr>role = ''assistant'', content = response\<rparr>]))"
      using after_input_history [OF inv1 ai] unfolding fr by blast
    then have "mutation\<^sup>*\<^sup>* (history w) (history w')"
      using mutation_cases [of "history w"] by (metis (no_types))
    with * show ?thesis by blast
  qed
qed

text \<open>
  C5. In a state where the history object has been allocated, one pass through the loop
  body leaves the reference \<^verbatim>\<open>app_state.ALL_MESSAGES\<close> as it was, and the history after
  the pass is the history before it, or that history with the user's message added at the
  end, or with the user's message and then the assistant's reply added at the end, or with
  the user's message added at the end, the message at index 0 removed, and the reply added
  at the end. So every change is a sequence of single additions at the end and removals at
  index 0, and the entries that stay keep their order and their content.
\<close>

theorem history_mutations:
  assumes "ALL_MESSAGES w < next_free w" and "main_iteration c w = (res, w')"
  shows "ALL_MESSAGES w' = ALL_MESSAGES w \<and>
         (history w' = history w \<or>
          (\<exists>line. history w' = history w @ [\<lparr>role = ''user'', content = line\<rparr>]) \<or>
          (\<exists>line response.
             history w' = history w @ [\<lparr>role = ''user'', content = line\<rparr>,
                                       \<lparr>role = ''assistant'', content = response\<rparr>]) \<or>
          (\<exists>line response.
             history w' = tl (history w @ [\<lparr>role = ''user'', content = line\<rparr>]) @
                          [\<lparr>role = ''assistant'', content = response\<rparr>])) \<and>
         mutation\<^sup>*\<^sup>* (history w) (history w')"
  using main_iteration_history [OF assms] by blast

lemma main_iteration_world_hi:
  "fst (main_iteration (scripted [] reply_big) world_hi) = Returned () \<and>
   ALL_MESSAGES (snd (main_iteration (scripted [] reply_big) world_hi)) = 0 \<and>
   heap (snd (main_iteration (scripted [] reply_big) world_hi)) 0 =
     [msg ''assistant'' ''b'', msg ''user'' ''hi'', msg ''assistant'' ''hello'']"
  by (simp add: main_iteration_def get_user_input_def list_append_def open_file_def
      build_request_def new_list_def list_extend_def do_chatbot_conversation_exchange_def
      range_max_retry attempt_def scripted_def reply_big_def trim_if_over_budget_def
      MODEL_MAX_TOKENS_def list_pop0_def world_hi_def world0_def msg_def Let_def)

theorem history_mutations_witness:
  "ALL_MESSAGES world_hi < next_free world_hi \<and>
   fst (main_iteration (scripted [] reply_big) world_hi) = Returned () \<and>
   history world_hi = [msg ''user'' ''a'', msg ''assistant'' ''b''] \<and>
   history (snd (main_iteration (scripted [] reply_big) world_hi)) =
     [msg ''assistant'' ''b'', msg ''user'' ''hi'', msg ''assistant'' ''hello''] \<and>
   mutation\<^sup>*\<^sup>* (history world_hi) (history (snd (main_iteration (scripted [] reply_big) world_hi)))"
proof -
  have h1: "ALL_MESSAGES world_hi < next_free world_hi" by (simp add: world_hi_def world0_def)
  have f: "fst (main_iteration (scripted [] reply_big) world_hi) = Returned ()"
    using main_iteration_world_hi by blast
  have h2: "main_iteration (scripted [] reply_big) world_hi =
              (Returned (), snd (main_iteration (scripted [] reply_big) world_hi))"
    using f by (metis prod.collapse)
  have h3: "history world_hi = [msg ''user'' ''a'', msg ''assistant'' ''b'']"
    by (simp add: world_hi_def world0_def)
  have h4: "history (snd (main_iteration (scripted [] reply_big) world_hi)) =
     [msg ''assistant'' ''b'', msg ''user'' ''hi'', msg ''assistant'' ''hello'']"
    using main_iteration_world_hi by simp
  from history_mutations [OF h1 h2]
  have "mutation\<^sup>*\<^sup>* (history world_hi) (history (snd (main_iteration (scripted [] reply_big) world_hi)))"
    by blast
  with h1 f h3 h4 show ?thesis by blast
qed

section \<open>Exit codes\<close>

lemma always_fails_attempt:
  assumes "always_fails c"
  obtains e where "attempt c n sent = Inl e"
proof -
  from assms have "case c n sent of Inl e \<Rightarrow> True | Inr r \<Rightarrow> choices r = []"
    unfolding always_fails_def by blast
  then show thesis
    by (cases "c n sent") (auto simp: attempt_def intro: that)
qed

lemma retry_loop_exhausted:
  assumes "always_fails c"
  shows "fst (retry_loop c rs conversation w) = Raised IndexError \<or>
         (fst (retry_loop c rs conversation w) = Exited 1 \<and>
          length (calls (snd (retry_loop c rs conversation w))) = length (calls w) + length rs)"
proof (induction rs arbitrary: w)
  case Nil
  show ?case by simp
next
  case (Cons retry rest)
  let ?sent = "heap w conversation"
  let ?w1 = "w\<lparr>calls := calls w @ [?sent]\<rparr>"
  obtain e where e: "attempt c (length (calls w)) ?sent = Inl e"
    using assms by (rule always_fails_attempt)
  show ?case
  proof (cases "contains ''maximum context length'' e")
    case False
    then have "retry_loop c (retry # rest) conversation w =
               retry_loop c rest conversation (?w1\<lparr>sleeps := sleeps ?w1 @ [2 ^ retry * 5]\<rparr>)"
      by (simp add: e Let_def handle_error_def)
    with Cons.IH [of "?w1\<lparr>sleeps := sleeps ?w1 @ [2 ^ retry * 5]\<rparr>"] show ?thesis by simp
  next
    case True
    show ?thesis
    proof (cases ?sent)
      case Nil
      with True e show ?thesis by (simp add: Let_def handle_error_def list_pop0_def)
    next
      case (Cons x xs)
      with True e have "retry_loop c (retry # rest) conversation w =
               retry_loop c rest conversation (?w1\<lparr>heap := (heap ?w1)(conversation := xs)\<rparr>)"
        by (simp add: Let_def handle_error_def list_pop0_def)
      with Cons.IH [of "?w1\<lparr>heap := (heap ?w1)(conversation := xs)\<rparr>"] show ?thesis by simp
    qed
  qed
qed

text \<open>
  C8. When the line read at the main prompt is \<^verbatim>\<open>END\<close>, the pass through the loop body
  ends in \<^verbatim>\<open>exit(0)\<close> and nothing but the input consumed has changed, so no call of the
  client has been made. When none of the calls of an exchange succeeds and no exception
  leaves the error handler, the exchange makes exactly 7 calls and ends in \<^verbatim>\<open>exit(1)\<close>.
\<close>

theorem exit_codes:
  assumes "stdin w = ''END'' # rest"
    and "always_fails c'"
    and "fst (do_chatbot_conversation_exchange c' conversation v) \<noteq> Raised IndexError"
  shows "main_iteration c w = (Exited 0, w\<lparr>stdin := rest\<rparr>) \<and>
         fst (do_chatbot_conversation_exchange c' conversation v) = Exited 1 \<and>
         length (calls (snd (do_chatbot_conversation_exchange c' conversation v))) = length (calls v) + 7"
proof -
  have "main_iteration c w = (Exited 0, w\<lparr>stdin := rest\<rparr>)"
    using assms(1) by (simp add: main_iteration_def get_user_input_END)
  moreover from retry_loop_exhausted [OF assms(2), of "[0..<max_retry]" conversation v] assms(3)
  have "fst (do_chatbot_conversation_exchange c' conversation v) = Exited 1 \<and>
         length (calls (snd (do_chatbot_conversation_exchange c' conversation v))) = length (calls v) + 7"
    by (simp add: do_chatbot_conversation_exchange_def max_retry_def)
  ultimately show ?thesis by simp
qed


theorem exit_codes_witness:
  "stdin (world0\<lparr>stdin := [''END'']\<rparr>) = ''END'' # [] \<and>
   always_fails (scripted [context_error] other_error) \<and>
   fst (do_chatbot_conversation_exchange (scripted [context_error] other_error) 1 world0) \<noteq>
     Raised IndexError \<and>
   main_iteration (scripted [] reply_ok) (world0\<lparr>stdin := [''END'']\<rparr>) =
     (Exited 0, world0\<lparr>stdin := []\<rparr>) \<and>
   fst (do_chatbot_conversation_exchange (scripted [context_error] other_error) 1 world0) = Exited 1 \<and>
   length (calls (snd (do_chatbot_conversation_exchange (scripted [context_error] other_error) 1 world0))) =
     length (calls world0) + 7"
proof -
  have h1: "stdin (world0\<lparr>stdin := [''END'']\<rparr>) = ''END'' # []" by simp
  have h2: "always_fails (scripted [context_error] other_error)"
    by (simp add: always_fails_def scripted_def context_error_def other_error_def)
  have h3: "fst (do_chatbot_conversation_exchange (scripted [context_error] other_error) 1 world0) \<noteq>
     Raised IndexError"
    by (simp add: do_chatbot_conversation_exchange_def range_max_retry scripted_def
        context_error_def other_error_def world0_def attempt_def handle_error_def
        list_pop0_def msg_def)
  from exit_codes [OF h1 h2 h3, of "scripted [] reply_ok"] h1 h2 h3
  show ?thesis by simp
qed

section \<open>The whole loop\<close>

text \<open>
  Every pass that goes on to the next one has consumed at least one line of input, so
  \<^verbatim>\<open>while True\<close> ends on every finite input: in \<^verbatim>\<open>exit\<close>, or in an exception (EOFError
  when the input is used up).
\<close>

lemma read_lines_shorter:
  "read_lines acc xs = (r, rest) \<Longrightarrow> length rest \<le> length xs"
proof (induction xs arbitrary: acc)
  case Nil
  then show ?case by simp
next
  case (Cons a xs)
  show ?case
  proof (cases "a = ''END''")
    case True
    with Cons.prems show ?thesis by simp
  next
    case False
    with Cons.prems have "read_lines (acc @ [a]) xs = (r, rest)" by simp
    from Cons.IH [OF this] show ?thesis by simp
  qed
qed

lemma get_user_input_consumes:
  assumes "get_user_input w = (Returned x, w1)"
  shows "length (stdin w1) < length (stdin w)"
proof -
  from assms obtain line rest where st: "stdin w = line # rest"
    by (cases "stdin w") (auto simp: get_user_input_def)
  show ?thesis
  proof (cases "line = ''SCRATCHPAD'' \<or> line = ''M''")
    case False
    with assms st show ?thesis
      by (auto simp: get_user_input_def Let_def split: if_splits)
  next
    case True
    obtain r rest' where rl: "read_lines [] rest = (r, rest')" by (cases "read_lines [] rest") auto
    from read_lines_shorter [OF rl] have "length rest' \<le> length rest" .
    with assms st True rl show ?thesis
      by (auto simp: get_user_input_def multi_line_input_def save_file_def Let_def
          split: if_splits result.splits)
  qed
qed

lemma after_input_stdin:
  "stdin (snd (after_input c line w1)) = stdin w1"
proof -
  let ?w2 = "list_append (ALL_MESSAGES w1) \<lparr>role = ''user'', content = line\<rparr> w1"
  have s2: "stdin ?w2 = stdin w1" by (simp add: list_append_def)
  show ?thesis
  proof (cases "\<exists>template scratchpad. files w1 ''system_message.txt'' = Some template \<and>
                  files w1 ''scratchpad.txt'' = Some scratchpad")
    case False
    then have "after_input c line w1 = (Raised FileNotFoundError, ?w2)"
      by (auto simp: after_input_def open_file_def list_append_def Let_def split: option.splits)
    with s2 show ?thesis by simp
  next
    case True
    then obtain template scratchpad where
      f: "files w1 ''system_message.txt'' = Some template" "files w1 ''scratchpad.txt'' = Some scratchpad"
      by blast
    let ?sm = "replace ''<<CODE>>'' (universal_newlines scratchpad) (universal_newlines template)"
    obtain conv w3 where br: "build_request ?sm ?w2 = (conv, w3)"
      by (cases "build_request ?sm ?w2") auto
    then have s3: "stdin w3 = stdin w1"
      by (auto simp: build_request_def new_list_def list_extend_def list_append_def Let_def)
    obtain res4 w4 where ex: "do_chatbot_conversation_exchange c conv w3 = (res4, w4)"
      by (cases "do_chatbot_conversation_exchange c conv w3") auto
    from exchange_frame(4) [OF ex] s3 have s4: "stdin w4 = stdin w1" by simp
    have "stdin (snd (after_input c line w1)) = stdin w4"
      using f br ex
      by (auto simp: after_input_def open_file_def list_append_def trim_if_over_budget_def
          list_pop0_def Let_def split: result.splits prod.splits list.splits)
    with s4 show ?thesis by simp
  qed
qed

lemma main_iteration_consumes:
  assumes "main_iteration c w = (Returned u, w')"
  shows "length (stdin w') < length (stdin w)"
proof -
  obtain r1 w1 where gi: "get_user_input w = (r1, w1)" by (cases "get_user_input w") auto
  with assms obtain x where r1: "r1 = Returned x"
    by (cases r1) (auto simp: main_iteration_after_input)
  from get_user_input_consumes gi r1 have lt: "length (stdin w1) < length (stdin w)" by blast
  show ?thesis
  proof (cases "\<exists>line. x = Some line \<and> line \<noteq> []")
    case False
    with assms gi r1 have "w' = w1"
      by (auto simp: main_iteration_after_input split: option.splits if_splits)
    with lt show ?thesis by simp
  next
    case True
    then obtain line where "x = Some line" "line \<noteq> []" by blast
    with assms gi r1 have "after_input c line w1 = (Returned u, w')"
      by (simp add: main_iteration_after_input)
    with after_input_stdin [of c line w1] lt show ?thesis by simp
  qed
qed

function main_loop :: "client \<Rightarrow> world \<Rightarrow> unit result \<times> world" where
  "main_loop c w =
     (case main_iteration c w of
        (Returned u, w') \<Rightarrow> main_loop c w'
      | (Exited n, w') \<Rightarrow> (Exited n, w')
      | (Raised e, w') \<Rightarrow> (Raised e, w'))"
  by pat_completeness auto
termination
proof (relation "measure (\<lambda>(c, w). length (stdin w))")
  show "wf (measure (\<lambda>(c, w). length (stdin w)))" by simp
next
  fix c w x1 x2 x1a
  assume "(x1, x2) = main_iteration c w" and "x1 = Returned x1a"
  then have "main_iteration c w = (Returned x1a, x2)" by simp
  from main_iteration_consumes [OF this]
  show "((c, x2), (c, w)) \<in> measure (\<lambda>(c, w). length (stdin w))" by simp
qed

declare main_loop.simps [simp del]

text \<open>
  Over the whole run of the loop the history only changes by additions at the end and
  removals at index 0, and the loop never ends by returning.
\<close>

lemma main_loop_run:
  assumes "ALL_MESSAGES w < next_free w"
  shows "(\<forall>u. fst (main_loop c w) \<noteq> Returned u) \<and>
         mutation\<^sup>*\<^sup>* (history w) (history (snd (main_loop c w)))"
  using assms
proof (induction c w rule: main_loop.induct)
  case (1 c w)
  obtain res w' where mi: "main_iteration c w = (res, w')" by (cases "main_iteration c w") auto
  note step = main_iteration_history [OF "1.prems" mi]
  from step have st1: "ALL_MESSAGES w' < next_free w'" by blast
  from step have st2: "mutation\<^sup>*\<^sup>* (history w) (history w')" by blast
  show ?case
  proof (cases res)
    case (Returned u)
    with mi have ml: "main_loop c w = main_loop c w'" by (subst main_loop.simps) simp
    from "1.IH" [OF mi [symmetric] Returned st1]
    have "(\<forall>u. fst (main_loop c w') \<noteq> Returned u) \<and>
          mutation\<^sup>*\<^sup>* (history w') (history (snd (main_loop c w')))" .
    with st2 show ?thesis
      unfolding ml by (blast intro: rtranclp_trans)
  next
    case (Exited n)
    with mi have "main_loop c w = (Exited n, w')" by (subst main_loop.simps) simp
    with st2 show ?thesis by simp
  next
    case (Raised e)
    with mi have "main_loop c w = (Raised e, w')" by (subst main_loop.simps) simp
    with st2 show ?thesis by simp
  qed
qed

end
